theory Spec2Isabelle
  imports Main
begin

section \<open>Data model of qopenglcontext.cpp\<close>

text \<open>
  Objects are identified by natural numbers (their addresses). A pointer that may be
  null is an \<open>option\<close>. Every operation runs in a calling thread, described by an
  environment record together with the answers of the platform plugin that the call
  receives. Each operation is one atomic step; the recursive mutex \<open>m_mutex\<close> of a group
  is not modelled.
\<close>

record QSurface =
  surface_id :: nat
  surfaceHandle :: "nat option"
  supportsOpenGL :: bool
  singleBuffer :: bool

text \<open>
  The platform context, as far as this file asks it: \<open>isValid()\<close> and \<open>isSharing()\<close>.
\<close>

record QPlatformOpenGLContext =
  pc_isValid :: bool
  pc_isSharing :: bool

record QOpenGLContextPrivate =
  d_platformGLContext :: "QPlatformOpenGLContext option"
  d_shareContext :: "nat option"
  d_shareGroup :: "nat option"
  d_surface :: "QSurface option"
  d_thread :: "nat option"
  d_workaround_brokenFBOReadBack :: bool

record QOpenGLContextGroupPrivate =
  m_context :: "nat option"
  m_shares :: "nat list"
  m_resources :: "(nat \<times> nat) list"
  m_refs :: int
  m_sharedResources :: "nat list"
  m_pendingDeletion :: "nat list"
  g_thread :: "nat option"

record QOpenGLMultiGroupSharedResource =
  m_groups :: "nat list"
  m_active :: int

datatype warning =
    NoQTLS
  | MakeCurrentNonOpenGLSurface
  | SwapBuffersNullArgument
  | SwapBuffersNonOpenGLSurface
  | SwapBuffersWithoutMakeCurrent

text \<open>
  What the code does to the outside world is recorded in a trace. \<open>FreeResource r ctx\<close>
  is the call \<open>r->freeResource(ctx)\<close>; with it the trace records what the calling thread
  would observe at that moment: the resource's \<open>m_group\<close>, \<open>currentContext()\<close> and
  \<open>currentContextGroup()\<close>.
\<close>

datatype event =
    FreeResource nat nat "nat option" "nat option" "nat option"
  | InvalidateResource nat
  | Warning warning
  | AboutToBeDestroyed nat
  | PlatformMakeCurrent nat nat bool
  | PlatformDoneCurrent nat
  | PlatformSwapBuffers nat nat
  | GlFlush nat

datatype abort = Fatal | AssertFailed | Crash

record world =
  contexts :: "nat \<Rightarrow> QOpenGLContextPrivate"
  groups :: "nat \<rightharpoonup> QOpenGLContextGroupPrivate"
  group_counter :: nat
  resources :: "nat \<rightharpoonup> nat option"
  resource_counter :: nat
  multi :: "nat \<Rightarrow> QOpenGLMultiGroupSharedResource"
  qwindow_context_storage :: "nat \<rightharpoonup> nat option"
  deleteLater_posted :: "nat list"
  needsWorkaroundSet :: bool
  needsWorkaround :: bool
  trace :: "event list"

text \<open>
  The caller and the platform's answers during one call. \<open>tid\<close> is the calling thread,
  the key of the thread-local storage; \<open>hasQThread\<close> says whether
  \<open>QThread::currentThread()\<close> is non-null there. \<open>makeCurrentTracker_old\<close> is the value
  returned by \<open>toggleMakeCurrentTracker\<close>, a debug helper of the private header.
\<close>

record env =
  tid :: nat
  hasQThread :: bool
  AA_DontCheckOpenGLContextThreadAffinity :: bool
  platform_makeCurrent :: bool
  glyphCacheWorkaroundProbe :: bool
  QT_NO_DEBUG :: bool
  makeCurrentTracker_old :: bool

definition QThread_currentThread :: "env \<Rightarrow> nat option" where
  "QThread_currentThread e = (if hasQThread e then Some (tid e) else None)"

definition emit :: "event \<Rightarrow> world \<Rightarrow> world" where
  "emit ev s = s\<lparr>trace := trace s @ [ev]\<rparr>"

definition upd_ctx :: "nat \<Rightarrow> (QOpenGLContextPrivate \<Rightarrow> QOpenGLContextPrivate) \<Rightarrow> world \<Rightarrow> world" where
  "upd_ctx c f s = s\<lparr>contexts := (contexts s)(c := f (contexts s c))\<rparr>"

definition set_grp :: "nat \<Rightarrow> QOpenGLContextGroupPrivate \<Rightarrow> world \<Rightarrow> world" where
  "set_grp g G s = s\<lparr>groups := (groups s)(g \<mapsto> G)\<rparr>"

definition bindA :: "abort + 'a \<Rightarrow> ('a \<Rightarrow> abort + 'b) \<Rightarrow> abort + 'b" where
  "bindA m f = (case m of Inl a \<Rightarrow> Inl a | Inr x \<Rightarrow> f x)"

fun foldA :: "('a \<Rightarrow> world \<Rightarrow> abort + world) \<Rightarrow> 'a list \<Rightarrow> world \<Rightarrow> abort + world" where
  "foldA f [] s = Inr s"
| "foldA f (x # xs) s = bindA (f x s) (foldA f xs)"

section \<open>Accessors of QOpenGLContext\<close>

definition handle :: "world \<Rightarrow> nat \<Rightarrow> QPlatformOpenGLContext option" where
  "handle s c = d_platformGLContext (contexts s c)"

definition shareGroup :: "world \<Rightarrow> nat \<Rightarrow> nat option" where
  "shareGroup s c = d_shareGroup (contexts s c)"

definition shareContext :: "world \<Rightarrow> nat \<Rightarrow> nat option" where
  "shareContext s c = d_shareContext (contexts s c)"

definition surface :: "world \<Rightarrow> nat \<Rightarrow> QSurface option" where
  "surface s c = d_surface (contexts s c)"

definition isValid :: "world \<Rightarrow> nat \<Rightarrow> bool" where
  "isValid s c = (case d_platformGLContext (contexts s c) of
                    None \<Rightarrow> False
                  | Some p \<Rightarrow> pc_isValid p)"

definition areSharing :: "world \<Rightarrow> nat \<Rightarrow> nat \<Rightarrow> bool" where
  "areSharing s first second = (shareGroup s first = shareGroup s second)"

definition shares :: "world \<Rightarrow> nat \<Rightarrow> nat list" where
  "shares s g = (case groups s g of None \<Rightarrow> [] | Some G \<Rightarrow> m_shares G)"

section \<open>The thread's current context\<close>

definition currentContext :: "env \<Rightarrow> world \<Rightarrow> nat option" where
  "currentContext e s = (case qwindow_context_storage s (tid e) of
                           Some threadContext \<Rightarrow> threadContext
                         | None \<Rightarrow> None)"

definition currentContextGroup :: "env \<Rightarrow> world \<Rightarrow> nat option" where
  "currentContextGroup e s = (case currentContext e s of
                                Some current \<Rightarrow> shareGroup s current
                              | None \<Rightarrow> None)"

definition setCurrentContext :: "env \<Rightarrow> nat option \<Rightarrow> world \<Rightarrow> world \<times> nat option" where
  "setCurrentContext e context s =
     (case qwindow_context_storage s (tid e) of
        None \<Rightarrow>
          if \<not> hasQThread e then (emit (Warning NoQTLS) s, None)
          else if context = None then (s, None)
          else (s\<lparr>qwindow_context_storage := (qwindow_context_storage s)(tid e \<mapsto> context)\<rparr>, None)
      | Some previous \<Rightarrow>
          (s\<lparr>qwindow_context_storage := (qwindow_context_storage s)(tid e \<mapsto> context)\<rparr>, previous))"

section \<open>Shared resources and their deferred deletion\<close>

text \<open>
  One iteration of the loop of \<open>deletePendingResources\<close>: \<open>(*it)->freeResource(ctx)\<close>
  followed by \<open>delete *it\<close>. Calling a member of a resource that no longer exists is
  undefined behaviour, modelled as \<open>Crash\<close>.
\<close>

definition freeResource_and_delete :: "env \<Rightarrow> nat \<Rightarrow> nat \<Rightarrow> world \<Rightarrow> abort + world" where
  "freeResource_and_delete e ctx r s =
     (case resources s r of
        None \<Rightarrow> Inl Crash
      | Some grp \<Rightarrow>
          Inr ((emit (FreeResource r ctx grp (currentContext e s) (currentContextGroup e s)) s)
                 \<lparr>resources := (resources s)(r := None)\<rparr>))"

definition deletePendingResources :: "env \<Rightarrow> nat \<Rightarrow> nat \<Rightarrow> world \<Rightarrow> abort + world" where
  "deletePendingResources e g ctx s =
     (case groups s g of
        None \<Rightarrow> Inl Crash
      | Some G \<Rightarrow>
          foldA (freeResource_and_delete e ctx) (m_pendingDeletion G)
            (set_grp g (G\<lparr>m_pendingDeletion := []\<rparr>) s))"

text \<open>
  The constructor \<open>QOpenGLSharedResource(group)\<close>. The new object's address is the next
  unused resource number.
\<close>

definition QOpenGLSharedResource :: "nat \<Rightarrow> world \<Rightarrow> abort + world \<times> nat" where
  "QOpenGLSharedResource g s =
     (case groups s g of
        None \<Rightarrow> Inl Crash
      | Some G \<Rightarrow>
          (let r = resource_counter s
           in Inr ((set_grp g (G\<lparr>m_sharedResources := m_sharedResources G @ [r]\<rparr>) s)
                     \<lparr>resources := (resources s)(r \<mapsto> Some g),
                      resource_counter := Suc r\<rparr>, r)))"

definition free :: "env \<Rightarrow> nat \<Rightarrow> world \<Rightarrow> abort + world" where
  "free e r s =
     (case resources s r of
        None \<Rightarrow> Inl Crash
      | Some None \<Rightarrow> Inr (s\<lparr>resources := (resources s)(r := None)\<rparr>)
      | Some (Some g) \<Rightarrow>
          (case groups s g of
             None \<Rightarrow> Inl Crash
           | Some G \<Rightarrow>
               (let s1 = set_grp g (G\<lparr>m_sharedResources := remove1 r (m_sharedResources G),
                                      m_pendingDeletion := m_pendingDeletion G @ [r]\<rparr>) s
                in case currentContext e s1 of
                     None \<Rightarrow> Inr s1
                   | Some current \<Rightarrow>
                       if shareGroup s1 current = Some g
                       then deletePendingResources e g current s1
                       else Inr s1)))"

section \<open>makeCurrent, doneCurrent, swapBuffers\<close>

definition doneCurrent :: "env \<Rightarrow> nat \<Rightarrow> world \<Rightarrow> abort + world" where
  "doneCurrent e c s =
     (if \<not> isValid s c then Inr s
      else bindA
        (if currentContext e s = Some c
         then (case shareGroup s c of
                 None \<Rightarrow> Inl Crash
               | Some g \<Rightarrow> deletePendingResources e g c s)
         else Inr s)
        (\<lambda>s1. Inr (upd_ctx c (\<lambda>d. d\<lparr>d_surface := None\<rparr>)
                     (fst (setCurrentContext e None (emit (PlatformDoneCurrent c) s1))))))"

text \<open>
  The glyph-cache workaround of \<open>makeCurrent\<close>: two function-local statics, set once
  from the environment variables and the renderer string (\<open>glyphCacheWorkaroundProbe\<close>).
\<close>

definition glyphCacheWorkaround :: "env \<Rightarrow> nat \<Rightarrow> world \<Rightarrow> world" where
  "glyphCacheWorkaround e c s =
     (let s1 = (if \<not> needsWorkaroundSet s
                then s\<lparr>needsWorkaround := (needsWorkaround s \<or> glyphCacheWorkaroundProbe e),
                       needsWorkaroundSet := True\<rparr>
                else s)
      in if needsWorkaround s1
         then upd_ctx c (\<lambda>d. d\<lparr>d_workaround_brokenFBOReadBack := True\<rparr>) s1
         else s1)"

definition affinityCheckFails :: "env \<Rightarrow> world \<Rightarrow> nat \<Rightarrow> bool" where
  "affinityCheckFails e s c =
     (\<not> AA_DontCheckOpenGLContextThreadAffinity e
      \<and> d_thread (contexts s c) \<noteq> QThread_currentThread e)"

definition makeCurrent :: "env \<Rightarrow> nat \<Rightarrow> QSurface option \<Rightarrow> world \<Rightarrow> abort + world \<times> bool" where
  "makeCurrent e c surf s =
     (if \<not> isValid s c then Inr (s, False)
      else if affinityCheckFails e s c then Inl Fatal
      else case surf of
        None \<Rightarrow> bindA (doneCurrent e c s) (\<lambda>s1. Inr (s1, True))
      | Some sf \<Rightarrow>
          (case surfaceHandle sf of
             None \<Rightarrow> Inr (s, False)
           | Some h \<Rightarrow>
               if \<not> supportsOpenGL sf
               then Inr (emit (Warning MakeCurrentNonOpenGLSurface) s, False)
               else if \<not> platform_makeCurrent e
               then Inr (emit (PlatformMakeCurrent c h False) s, False)
               else
                 (let s1 = fst (setCurrentContext e (Some c) (emit (PlatformMakeCurrent c h True) s));
                      s2 = upd_ctx c (\<lambda>d. d\<lparr>d_surface := Some sf\<rparr>) s1;
                      s3 = glyphCacheWorkaround e c s2
                  in case shareGroup s3 c of
                       None \<Rightarrow> Inl Crash
                     | Some g \<Rightarrow> bindA (deletePendingResources e g c s3) (\<lambda>s4. Inr (s4, True)))))"

definition swapBuffers :: "env \<Rightarrow> nat \<Rightarrow> QSurface option \<Rightarrow> world \<Rightarrow> world" where
  "swapBuffers e c surf s =
     (if \<not> isValid s c then s
      else case surf of
        None \<Rightarrow> emit (Warning SwapBuffersNullArgument) s
      | Some sf \<Rightarrow>
          if \<not> supportsOpenGL sf then emit (Warning SwapBuffersNonOpenGLSurface) s
          else (case surfaceHandle sf of
                  None \<Rightarrow> s
                | Some h \<Rightarrow>
                    (let s1 = (if \<not> QT_NO_DEBUG e \<and> \<not> makeCurrentTracker_old e
                               then emit (Warning SwapBuffersWithoutMakeCurrent) s else s);
                         s2 = (if singleBuffer sf then emit (GlFlush c) s1 else s1)
                     in emit (PlatformSwapBuffers c h) s2)))"

section \<open>Share groups\<close>

text \<open>
  Modelled from the spec: the constructor of \<open>QOpenGLContextGroupPrivate\<close> is declared
  in the private header, which is not part of the sources at hand. The spec speaks of a
  new group containing only the creating context, and of the group being deleted when
  its last member is removed; so a new group starts with no current context, no
  members, no resources and a reference count of zero. As a \<open>QObject\<close> it lives in the
  thread that constructs it.
\<close>

definition new_QOpenGLContextGroup :: "env \<Rightarrow> world \<Rightarrow> world \<times> nat" where
  "new_QOpenGLContextGroup e s =
     (let g = group_counter s
      in ((set_grp g \<lparr>m_context = None, m_shares = [], m_resources = [], m_refs = 0,
                       m_sharedResources = [], m_pendingDeletion = [],
                       g_thread = QThread_currentThread e\<rparr> s)
            \<lparr>group_counter := Suc g\<rparr>, g))"

definition addContext :: "nat \<Rightarrow> nat \<Rightarrow> world \<Rightarrow> abort + world" where
  "addContext g ctx s =
     (case groups s g of
        None \<Rightarrow> Inl Crash
      | Some G \<Rightarrow> Inr (set_grp g (G\<lparr>m_refs := m_refs G + 1, m_shares := m_shares G @ [ctx]\<rparr>) s))"

text \<open>
  \<open>QOpenGLMultiGroupSharedResource::cleanup(group, value)\<close>. \<open>Q_ASSERT\<close> aborts in a
  debug build only.
\<close>

definition invalidateResource :: "nat \<Rightarrow> world \<Rightarrow> abort + world" where
  "invalidateResource r s =
     (case resources s r of
        None \<Rightarrow> Inl Crash
      | Some _ \<Rightarrow> Inr (emit (InvalidateResource r) s))"

definition multi_cleanup :: "env \<Rightarrow> nat \<Rightarrow> nat \<times> nat \<Rightarrow> world \<Rightarrow> abort + world" where
  "multi_cleanup e g kv s =
     (case kv of (key, val) \<Rightarrow>
        bindA (invalidateResource val s) (\<lambda>s1.
        bindA (free e val s1) (\<lambda>s2.
          (let M = multi s2 key;
               s3 = s2\<lparr>multi := (multi s2)(key := M\<lparr>m_active := m_active M - 1\<rparr>)\<rparr>
           in if \<not> QT_NO_DEBUG e \<and> g \<notin> set (m_groups M) then Inl AssertFailed
              else Inr (s3\<lparr>multi := (multi s3)(key := (multi s3 key)
                                \<lparr>m_groups := remove1 g (m_groups (multi s3 key))\<rparr>)\<rparr>)))))"

definition invalidate_and_detach :: "nat \<Rightarrow> world \<Rightarrow> abort + world" where
  "invalidate_and_detach r s =
     bindA (invalidateResource r s)
       (\<lambda>s1. Inr (s1\<lparr>resources := (resources s1)(r \<mapsto> None)\<rparr>))"

definition delete_resource :: "nat \<Rightarrow> world \<Rightarrow> abort + world" where
  "delete_resource r s =
     (case resources s r of
        None \<Rightarrow> Inl Crash
      | Some _ \<Rightarrow> Inr (s\<lparr>resources := (resources s)(r := None)\<rparr>))"

definition cleanup :: "env \<Rightarrow> nat \<Rightarrow> world \<Rightarrow> abort + world" where
  "cleanup e g s =
     (case groups s g of
        None \<Rightarrow> Inl Crash
      | Some G \<Rightarrow>
          bindA (foldA (multi_cleanup e g) (m_resources G) s) (\<lambda>s1.
            (case groups s1 g of
               None \<Rightarrow> Inl Crash
             | Some G1 \<Rightarrow>
                 bindA (foldA invalidate_and_detach (m_sharedResources G1)
                          (set_grp g (G1\<lparr>m_resources := []\<rparr>) s1)) (\<lambda>s2.
                   (case groups s2 g of
                      None \<Rightarrow> Inl Crash
                    | Some G2 \<Rightarrow>
                        bindA (foldA delete_resource (m_pendingDeletion G2)
                                 (set_grp g (G2\<lparr>m_sharedResources := []\<rparr>) s2)) (\<lambda>s3.
                          (case groups s3 g of
                             None \<Rightarrow> Inl Crash
                           | Some G3 \<Rightarrow> Inr (set_grp g (G3\<lparr>m_pendingDeletion := []\<rparr>) s3))))))))"

text \<open>
  \<open>delete q\<close> runs the destructor of the group, which calls \<open>cleanup\<close> once more.
\<close>

definition delete_group :: "env \<Rightarrow> nat \<Rightarrow> world \<Rightarrow> abort + world" where
  "delete_group e g s =
     bindA (cleanup e g s) (\<lambda>s1. Inr (s1\<lparr>groups := (groups s1)(g := None)\<rparr>))"

text \<open>
  \<open>m_refs\<close> is a \<open>QAtomicInt\<close>; it is modelled as an unbounded integer, so the model
  is the code as long as fewer than \<open>2^31\<close> contexts join one group.
\<close>

definition removeContext :: "env \<Rightarrow> nat \<Rightarrow> nat \<Rightarrow> world \<Rightarrow> abort + world" where
  "removeContext e g ctx s =
     (case groups s g of
        None \<Rightarrow> Inl Crash
      | Some G \<Rightarrow>
          (let shares1 = remove1 ctx (m_shares G);
               G1 = G\<lparr>m_shares := shares1,
                      m_context := (if m_context G = Some ctx \<and> shares1 \<noteq> []
                                    then Some (hd shares1) else m_context G),
                      m_refs := m_refs G - 1\<rparr>;
               s1 = set_grp g G1 s
           in if m_refs G1 = 0
              then bindA (cleanup e g s1) (\<lambda>s2.
                     if g_thread G1 = QThread_currentThread e
                     then delete_group e g s2
                     else Inr (s2\<lparr>deleteLater_posted := deleteLater_posted s2 @ [g]\<rparr>))
              else Inr s1))"

section \<open>create, adopt, destroy\<close>

definition adopt :: "env \<Rightarrow> QPlatformOpenGLContext \<Rightarrow> nat \<Rightarrow> world \<Rightarrow> abort + world" where
  "adopt e context q s =
     (let s1 = upd_ctx q (\<lambda>d. d\<lparr>d_platformGLContext := Some context\<rparr>) s;
          s2 = (if \<not> pc_isSharing context
                then upd_ctx q (\<lambda>d. d\<lparr>d_shareContext := None\<rparr>) s1 else s1)
      in case shareContext s2 q of
           Some sc \<Rightarrow>
             (let s3 = upd_ctx q (\<lambda>d. d\<lparr>d_shareGroup := shareGroup s2 sc\<rparr>) s2
              in case shareGroup s3 q of
                   None \<Rightarrow> Inl Crash
                 | Some g \<Rightarrow> addContext g q s3)
         | None \<Rightarrow>
             (case new_QOpenGLContextGroup e s2 of (s3, g) \<Rightarrow>
                addContext g q (upd_ctx q (\<lambda>d. d\<lparr>d_shareGroup := Some g\<rparr>) s3)))"

text \<open>
  \<open>destroy\<close> also tears down the function wrappers and helper objects of the context
  (texture functions, version functions, the VAO helper); they own no field of this
  model. The signal \<open>aboutToBeDestroyed\<close> is recorded in the trace.
\<close>

definition destroy :: "env \<Rightarrow> nat \<Rightarrow> world \<Rightarrow> abort + world" where
  "destroy e c s =
     (let s1 = (if handle s c \<noteq> None then emit (AboutToBeDestroyed c) s else s)
      in bindA (if currentContext e s1 = Some c then doneCurrent e c s1 else Inr s1) (\<lambda>s2.
         bindA (case shareGroup s2 c of
                  Some g \<Rightarrow> removeContext e g c s2
                | None \<Rightarrow> Inr s2) (\<lambda>s3.
         Inr (upd_ctx c (\<lambda>d. d\<lparr>d_shareGroup := None, d_platformGLContext := None\<rparr>) s3))))"

text \<open>
  \<open>create\<close>: the second argument is what the platform integration's
  \<open>createPlatformOpenGLContext(this)\<close> returns (\<open>None\<close> for a null pointer).
\<close>

definition create :: "env \<Rightarrow> QPlatformOpenGLContext option \<Rightarrow> nat \<Rightarrow> world \<Rightarrow> abort + world \<times> bool" where
  "create e platformContext c s =
     bindA (if handle s c \<noteq> None then destroy e c s else Inr s) (\<lambda>s1.
       (case platformContext of
          None \<Rightarrow> Inr (s1, False)
        | Some pc \<Rightarrow> bindA (adopt e pc c s1) (\<lambda>s2. Inr (s2, isValid s2 c))))"

definition setShareContext :: "nat \<Rightarrow> nat option \<Rightarrow> world \<Rightarrow> world" where
  "setShareContext c sc s = upd_ctx c (\<lambda>d. d\<lparr>d_shareContext := sc\<rparr>) s"

text \<open>
  \<open>QOpenGLMultiGroupSharedResource::insert(context, value)\<close>; the hash \<open>m_resources\<close>
  is kept as an association list with one entry per key.
\<close>

definition insert_multi :: "env \<Rightarrow> nat \<Rightarrow> nat \<Rightarrow> nat \<Rightarrow> world \<Rightarrow> abort + world" where
  "insert_multi e key context val s =
     (case shareGroup s context of
        None \<Rightarrow> Inl Crash
      | Some g \<Rightarrow>
          (case groups s g of
             None \<Rightarrow> Inl Crash
           | Some G \<Rightarrow>
               if \<not> QT_NO_DEBUG e \<and> key \<in> fst ` set (m_resources G) then Inl AssertFailed
               else
                 (let s1 = set_grp g (G\<lparr>m_resources :=
                                filter (\<lambda>kv. fst kv \<noteq> key) (m_resources G) @ [(key, val)]\<rparr>) s;
                      M = multi s1 key
                  in Inr (s1\<lparr>multi := (multi s1)(key := M\<lparr>m_groups := m_groups M @ [g],
                                                            m_active := m_active M + 1\<rparr>)\<rparr>))))"

text \<open>
  The platform may lose a context after it was created: from then on
  \<open>platformGLContext->isValid()\<close> answers false (see the documentation of \<open>isValid\<close>).
\<close>

definition contextLost :: "nat \<Rightarrow> world \<Rightarrow> world" where
  "contextLost c s =
     upd_ctx c (\<lambda>d. d\<lparr>d_platformGLContext :=
                         map_option (\<lambda>p. p\<lparr>pc_isValid := False\<rparr>) (d_platformGLContext d)\<rparr>) s"

definition moveToThread :: "nat \<Rightarrow> nat option \<Rightarrow> world \<Rightarrow> world" where
  "moveToThread c t s = upd_ctx c (\<lambda>d. d\<lparr>d_thread := t\<rparr>) s"

text \<open>
  The state of the program before any context exists. Context objects live in thread
  0 unless moved.
\<close>

definition init :: world where
  "init = \<lparr>contexts = (\<lambda>_. \<lparr>d_platformGLContext = None, d_shareContext = None,
                              d_shareGroup = None, d_surface = None, d_thread = Some 0,
                              d_workaround_brokenFBOReadBack = False\<rparr>),
           groups = Map.empty, group_counter = 0,
           resources = Map.empty, resource_counter = 0,
           multi = (\<lambda>_. \<lparr>m_groups = [], m_active = 0\<rparr>),
           qwindow_context_storage = Map.empty,
           deleteLater_posted = [],
           needsWorkaroundSet = False, needsWorkaround = False,
           trace = []\<rparr>"

section \<open>Programs over the interface\<close>

text \<open>
  The calls a client (or the platform, or the event loop) can make. \<open>DeferredDelete\<close>
  is the event loop delivering the oldest posted \<open>deleteLater()\<close>.
\<close>

datatype call =
    Create nat "QPlatformOpenGLContext option"
  | Destroy nat
  | MakeCurrent nat "QSurface option"
  | DoneCurrent nat
  | SwapBuffers nat "QSurface option"
  | SetShareContext nat "nat option"
  | MoveToThread nat "nat option"
  | NewSharedResource nat
  | Free nat
  | InsertMulti nat nat nat
  | ContextLost nat
  | DeferredDelete

definition processDeferredDelete :: "env \<Rightarrow> world \<Rightarrow> abort + world" where
  "processDeferredDelete e s =
     (case deleteLater_posted s of
        [] \<Rightarrow> Inr s
      | g # gs \<Rightarrow> delete_group e g (s\<lparr>deleteLater_posted := gs\<rparr>))"

fun exec :: "env \<times> call \<Rightarrow> world \<Rightarrow> abort + world" where
  "exec (e, Create c pc) s = bindA (create e pc c s) (\<lambda>r. Inr (fst r))"
| "exec (e, Destroy c) s = destroy e c s"
| "exec (e, MakeCurrent c surf) s = bindA (makeCurrent e c surf s) (\<lambda>r. Inr (fst r))"
| "exec (e, DoneCurrent c) s = doneCurrent e c s"
| "exec (e, SwapBuffers c surf) s = Inr (swapBuffers e c surf s)"
| "exec (e, SetShareContext c sc) s = Inr (setShareContext c sc s)"
| "exec (e, MoveToThread c t) s = Inr (moveToThread c t s)"
| "exec (e, NewSharedResource g) s = bindA (QOpenGLSharedResource g s) (\<lambda>r. Inr (fst r))"
| "exec (e, Free r) s = free e r s"
| "exec (e, InsertMulti key c val) s = insert_multi e key c val s"
| "exec (e, ContextLost c) s = Inr (contextLost c s)"
| "exec (e, DeferredDelete) s = processDeferredDelete e s"

definition run :: "(env \<times> call) list \<Rightarrow> world \<Rightarrow> abort + world" where
  "run calls s = foldA exec calls s"

definition after :: "(env \<times> call) list \<Rightarrow> world" where
  "after calls = (case run calls init of Inr s \<Rightarrow> s | Inl _ \<Rightarrow> init)"

text \<open>The events a call added to the trace.\<close>

definition new_events :: "world \<Rightarrow> world \<Rightarrow> event list" where
  "new_events s s' = drop (length (trace s)) (trace s')"

text \<open>
  What a call returned, and the state it left, when it returned at all.
\<close>

definition returned :: "abort + world \<times> 'a \<Rightarrow> 'a option" where
  "returned m = (case m of Inl _ \<Rightarrow> None | Inr r \<Rightarrow> Some (snd r))"

definition state_after :: "abort + world \<times> 'a \<Rightarrow> world option" where
  "state_after m = (case m of Inl _ \<Rightarrow> None | Inr r \<Rightarrow> Some (fst r))"

definition state_of :: "abort + world \<Rightarrow> world option" where
  "state_of m = (case m of Inl _ \<Rightarrow> None | Inr s \<Rightarrow> Some s)"

text \<open>The resource lists of a group; empty when the group does not exist.\<close>

definition sharedOf :: "world \<Rightarrow> nat \<Rightarrow> nat list" where
  "sharedOf s g = (case groups s g of None \<Rightarrow> [] | Some G \<Rightarrow> m_sharedResources G)"

definition pendingOf :: "world \<Rightarrow> nat \<Rightarrow> nat list" where
  "pendingOf s g = (case groups s g of None \<Rightarrow> [] | Some G \<Rightarrow> m_pendingDeletion G)"

definition mresOf :: "world \<Rightarrow> nat \<Rightarrow> (nat \<times> nat) list" where
  "mresOf s g = (case groups s g of None \<Rightarrow> [] | Some G \<Rightarrow> m_resources G)"


text \<open>The resources released by the \<open>freeResource\<close> calls in a list of events, in order.\<close>

fun freed :: "event list \<Rightarrow> nat list" where
  "freed [] = []"
| "freed (FreeResource r ctx grp cur curgrp # es) = r # freed es"
| "freed (ev # es) = freed es"

section \<open>Consistent states\<close>

text \<open>
  The pending list of the context's share group can be drained: the group exists, and
  every resource on its pending list is a live object listed once. Otherwise
  \<open>deletePendingResources\<close> would touch a deleted object.
\<close>

definition drainable :: "world \<Rightarrow> nat \<Rightarrow> bool" where
  "drainable s c =
     (case shareGroup s c of
        None \<Rightarrow> False
      | Some g \<Rightarrow>
          (case groups s g of
             None \<Rightarrow> False
           | Some G \<Rightarrow> distinct (m_pendingDeletion G)
                        \<and> (\<forall>r \<in> set (m_pendingDeletion G). resources s r \<noteq> None)))"



text \<open>
  Consistent states. The resource lists of a group hold exactly the live resources
  whose \<open>m_group\<close> is the group, each once; a multi-group resource registered with a
  group is one of the group's shared resources, and the group is among the multi-group
  object's groups.
\<close>

definition res_wf0 :: "world \<Rightarrow> bool" where
  "res_wf0 s \<longleftrightarrow>
     (\<forall>r mg. resources s r = Some mg \<longrightarrow> r < resource_counter s)
     \<and> (\<forall>g. distinct (sharedOf s g @ pendingOf s g))
     \<and> (\<forall>g r. r \<in> set (sharedOf s g) \<union> set (pendingOf s g)
                 \<longleftrightarrow> resources s r = Some (Some g))"

definition mres_wf_at :: "world \<Rightarrow> nat \<Rightarrow> bool" where
  "mres_wf_at s g \<longleftrightarrow>
     distinct (map fst (mresOf s g)) \<and> distinct (map snd (mresOf s g))
     \<and> (\<forall>kv \<in> set (mresOf s g). snd kv \<in> set (sharedOf s g)
                                  \<and> g \<in> set (m_groups (multi s (fst kv))))"

definition res_wf :: "world \<Rightarrow> bool" where
  "res_wf s \<longleftrightarrow> res_wf0 s \<and> (\<forall>g. mres_wf_at s g)"

text \<open>
  A context has a platform context exactly when it has a share group; it is then a
  member of that group; a group lists each member once, its reference count is the
  number of its members, and a group posted for deferred deletion has none.
\<close>

definition mem_wf :: "world \<Rightarrow> bool" where
  "mem_wf s \<longleftrightarrow>
     (\<forall>c. (handle s c = None) = (shareGroup s c = None))
     \<and> (\<forall>c g. shareGroup s c = Some g \<longrightarrow> c \<in> set (shares s g))
     \<and> (\<forall>g. distinct (shares s g) \<and> (\<forall>c \<in> set (shares s g). shareGroup s c = Some g))
     \<and> (\<forall>g G. groups s g = Some G
            \<longrightarrow> g < group_counter s \<and> m_refs G = int (length (m_shares G)))
     \<and> distinct (deleteLater_posted s)
     \<and> (\<forall>g \<in> set (deleteLater_posted s). groups s g \<noteq> None \<and> shares s g = [])"

definition wf :: "world \<Rightarrow> bool" where
  "wf s \<longleftrightarrow> mem_wf s \<and> res_wf s"

text \<open>
  Two states with the same membership bookkeeping: the share group and platform context
  of every context, the existing groups with their members, reference counts and
  threads, the group counter and the posted deletions.
\<close>

definition mem_same :: "world \<Rightarrow> world \<Rightarrow> bool" where
  "mem_same s s' \<longleftrightarrow>
     shareGroup s' = shareGroup s
     \<and> handle s' = handle s
     \<and> group_counter s' = group_counter s
     \<and> deleteLater_posted s' = deleteLater_posted s
     \<and> (\<forall>g. (groups s' g = None) = (groups s g = None))
     \<and> (\<forall>g G G'. groups s g = Some G \<and> groups s' g = Some G'
            \<longrightarrow> m_shares G' = m_shares G \<and> m_refs G' = m_refs G
                \<and> g_thread G' = g_thread G \<and> m_context G' = m_context G)"

text \<open>
  The invariant of the first loop of \<open>cleanup\<close>, over the entries of \<open>m_resources\<close>
  still to be visited.
\<close>

definition phase1_inv :: "nat \<Rightarrow> (nat \<times> nat) list \<Rightarrow> world \<Rightarrow> bool" where
  "phase1_inv g rest s \<longleftrightarrow>
     res_wf0 s \<and> distinct (map fst rest) \<and> distinct (map snd rest)
     \<and> (\<forall>kv \<in> set rest. snd kv \<in> set (sharedOf s g)
                          \<and> g \<in> set (m_groups (multi s (fst kv))))
     \<and> (\<forall>g'. g' \<noteq> g \<longrightarrow> mres_wf_at s g')"

section \<open>Example scenarios\<close>

definition env_main :: env where
  "env_main = \<lparr>tid = 0, hasQThread = True, AA_DontCheckOpenGLContextThreadAffinity = False,
               platform_makeCurrent = True, glyphCacheWorkaroundProbe = False,
               QT_NO_DEBUG = True, makeCurrentTracker_old = True\<rparr>"

definition env_other :: env where
  "env_other = env_main\<lparr>tid := 1\<rparr>"

definition window_surface :: QSurface where
  "window_surface = \<lparr>surface_id = 0, surfaceHandle = Some 7, supportsOpenGL = True,
                     singleBuffer = False\<rparr>"

definition raster_surface :: QSurface where
  "raster_surface = \<lparr>surface_id = 1, surfaceHandle = Some 8, supportsOpenGL = False,
                     singleBuffer = False\<rparr>"

definition unexposed_surface :: QSurface where
  "unexposed_surface = \<lparr>surface_id = 2, surfaceHandle = None, supportsOpenGL = True,
                        singleBuffer = False\<rparr>"

definition pc_plain :: QPlatformOpenGLContext where
  "pc_plain = \<lparr>pc_isValid = True, pc_isSharing = False\<rparr>"

definition pc_sharing :: QPlatformOpenGLContext where
  "pc_sharing = \<lparr>pc_isValid = True, pc_isSharing = True\<rparr>"

text \<open>Context 0 created on the main thread, not current anywhere.\<close>

definition st_created :: world where
  "st_created = after [(env_main, Create 0 (Some pc_plain))]"

text \<open>
  Contexts 0, 1 and 3 share (1 was created sharing with 0, 3 sharing with 1); context 2
  has a group of its own.
\<close>

definition st_shared :: world where
  "st_shared = after [(env_main, Create 0 (Some pc_plain)),
                      (env_main, SetShareContext 1 (Some 0)),
                      (env_main, Create 1 (Some pc_sharing)),
                      (env_main, Create 2 (Some pc_plain)),
                      (env_main, SetShareContext 3 (Some 1)),
                      (env_main, Create 3 (Some pc_sharing))]"

text \<open>
  A thread without thread-local storage (\<open>QThread::currentThread()\<close> is null there), in
  an application that has switched the affinity check off.
\<close>

definition env_noqtls :: env where
  "env_noqtls = env_main\<lparr>tid := 2, hasQThread := False,
                           AA_DontCheckOpenGLContextThreadAffinity := True\<rparr>"

text \<open>Context 0 is current on the main thread when the platform loses it.\<close>

definition st_lost :: world where
  "st_lost = after [(env_main, Create 0 (Some pc_plain)),
                    (env_main, MakeCurrent 0 (Some window_surface)),
                    (env_main, ContextLost 0)]"







text \<open>
  What \<open>removeContext\<close> does to the membership bookkeeping when context \<open>c\<close> leaves
  group \<open>g\<close>: \<open>c\<close> is taken off the member list of \<open>g\<close> and the reference count of \<open>g\<close>
  drops by one; no other group changes. When \<open>c\<close> was the last member, the group object
  is deleted at once if the call is made in the group's thread, and otherwise it stays
  and a deferred deletion is posted for it.
\<close>

definition leaves :: "env \<Rightarrow> nat \<Rightarrow> nat \<Rightarrow> world \<Rightarrow> world \<Rightarrow> bool" where
  "leaves e c g s s' \<longleftrightarrow>
     (\<forall>g'. shares s' g' = (if g' = g then remove1 c (shares s g) else shares s g'))
     \<and> (\<forall>g'. g' \<noteq> g \<longrightarrow> (groups s' g' = None) = (groups s g' = None))
     \<and> (\<forall>g' G G'. groups s g' = Some G \<and> groups s' g' = Some G'
            \<longrightarrow> m_refs G' = (if g' = g then m_refs G - 1 else m_refs G)
                \<and> g_thread G' = g_thread G)
     \<and> ((groups s' g = None)
          = (shares s g = [c] \<and> (\<exists>G. groups s g = Some G \<and> g_thread G = QThread_currentThread e)))
     \<and> deleteLater_posted s'
         = (if shares s g = [c] \<and> (\<exists>G. groups s g = Some G \<and> g_thread G \<noteq> QThread_currentThread e)
            then deleteLater_posted s @ [g] else deleteLater_posted s)
     \<and> group_counter s' = group_counter s"

text \<open>A platform context that was produced but is not valid.\<close>

definition pc_invalid :: QPlatformOpenGLContext where
  "pc_invalid = \<lparr>pc_isValid = False, pc_isSharing = False\<rparr>"



section \<open>Basic lemmas\<close>

lemma emit_simps [simp]:
  "trace (emit ev s) = trace s @ [ev]"
  "contexts (emit ev s) = contexts s"
  "groups (emit ev s) = groups s"
  "resources (emit ev s) = resources s"
  "qwindow_context_storage (emit ev s) = qwindow_context_storage s"
  "multi (emit ev s) = multi s"
  "group_counter (emit ev s) = group_counter s"
  "resource_counter (emit ev s) = resource_counter s"
  "deleteLater_posted (emit ev s) = deleteLater_posted s"
  "needsWorkaroundSet (emit ev s) = needsWorkaroundSet s"
  "needsWorkaround (emit ev s) = needsWorkaround s"
  by (simp_all add: emit_def)

lemma upd_ctx_simps [simp]:
  "trace (upd_ctx c f s) = trace s"
  "contexts (upd_ctx c f s) = (contexts s)(c := f (contexts s c))"
  "groups (upd_ctx c f s) = groups s"
  "resources (upd_ctx c f s) = resources s"
  "qwindow_context_storage (upd_ctx c f s) = qwindow_context_storage s"
  "multi (upd_ctx c f s) = multi s"
  "group_counter (upd_ctx c f s) = group_counter s"
  "resource_counter (upd_ctx c f s) = resource_counter s"
  "deleteLater_posted (upd_ctx c f s) = deleteLater_posted s"
  "needsWorkaroundSet (upd_ctx c f s) = needsWorkaroundSet s"
  "needsWorkaround (upd_ctx c f s) = needsWorkaround s"
  by (simp_all add: upd_ctx_def)

lemma set_grp_simps [simp]:
  "trace (set_grp g G s) = trace s"
  "contexts (set_grp g G s) = contexts s"
  "groups (set_grp g G s) = (groups s)(g \<mapsto> G)"
  "resources (set_grp g G s) = resources s"
  "qwindow_context_storage (set_grp g G s) = qwindow_context_storage s"
  "multi (set_grp g G s) = multi s"
  "group_counter (set_grp g G s) = group_counter s"
  "resource_counter (set_grp g G s) = resource_counter s"
  "deleteLater_posted (set_grp g G s) = deleteLater_posted s"
  "needsWorkaroundSet (set_grp g G s) = needsWorkaroundSet s"
  "needsWorkaround (set_grp g G s) = needsWorkaround s"
  by (simp_all add: set_grp_def)

lemma bindA_simps [simp]:
  "bindA (Inl a) f = Inl a"
  "bindA (Inr x) f = f x"
  by (simp_all add: bindA_def)

lemma bindA_eq_Inr: "bindA m f = Inr y \<longleftrightarrow> (\<exists>x. m = Inr x \<and> f x = Inr y)"
  by (cases m) simp_all

lemma bindA_eq_Inl: "bindA m f = Inl a \<longleftrightarrow> (m = Inl a \<or> (\<exists>x. m = Inr x \<and> f x = Inl a))"
  by (cases m) simp_all

text \<open>The definitions a concrete scenario is evaluated with.\<close>

lemmas scenario_defs =
  run_def after_def init_def env_main_def env_other_def window_surface_def
  raster_surface_def unexposed_surface_def pc_plain_def pc_sharing_def
  create_def destroy_def adopt_def addContext_def removeContext_def cleanup_def
  delete_group_def new_QOpenGLContextGroup_def makeCurrent_def doneCurrent_def
  swapBuffers_def setCurrentContext_def currentContext_def currentContextGroup_def
  deletePendingResources_def freeResource_and_delete_def free_def
  QOpenGLSharedResource_def glyphCacheWorkaround_def affinityCheckFails_def
  QThread_currentThread_def handle_def shareGroup_def shareContext_def surface_def
  isValid_def shares_def areSharing_def setShareContext_def moveToThread_def
  contextLost_def insert_multi_def multi_cleanup_def invalidateResource_def
  invalidate_and_detach_def delete_resource_def processDeferredDelete_def
  new_events_def returned_def state_after_def state_of_def env_noqtls_def
  sharedOf_def pendingOf_def mresOf_def Let_def

lemma st_created_eq:
  "st_created = init\<lparr>contexts := (contexts init)(0 :=
                        (contexts init 0)\<lparr>d_platformGLContext := Some pc_plain,
                                           d_shareGroup := Some 0\<rparr>),
                     groups := [0 \<mapsto> \<lparr>m_context = None, m_shares = [0], m_resources = [],
                                       m_refs = 1, m_sharedResources = [],
                                       m_pendingDeletion = [], g_thread = Some 0\<rparr>],
                     group_counter := 1\<rparr>"
  by (simp add: st_created_def scenario_defs upd_ctx_def set_grp_def)

section \<open>The sharing relation\<close>

text \<open>
  C6. \<open>areSharing\<close> compares the share groups of two contexts, so it is an equivalence
  relation: every context shares with itself, \<open>areSharing a b\<close> equals
  \<open>areSharing b a\<close>, and sharing is transitive.
\<close>

theorem areSharing_equivalence:
  "areSharing s a a
   \<and> (areSharing s a b = areSharing s b a)
   \<and> (areSharing s a b \<and> areSharing s b c \<longrightarrow> areSharing s a c)"
  by (auto simp: areSharing_def)

theorem areSharing_equivalence_witness:
  "areSharing st_shared 0 1 \<and> areSharing st_shared 1 3 \<and> areSharing st_shared 0 3
   \<and> \<not> areSharing st_shared 0 2"
proof -
  have g: "shareGroup st_shared 0 = Some 0 \<and> shareGroup st_shared 1 = Some 0
           \<and> shareGroup st_shared 2 = Some 1 \<and> shareGroup st_shared 3 = Some 0"
    by (simp add: st_shared_def scenario_defs upd_ctx_def set_grp_def)
  have h: "areSharing st_shared 0 1 \<and> areSharing st_shared 1 3 \<and> \<not> areSharing st_shared 0 2"
    using g by (simp add: areSharing_def)
  show ?thesis
    using h areSharing_equivalence [of st_shared 0 1 3] by blast
qed

section \<open>Thread affinity of makeCurrent\<close>

lemma foldA_free_not_Fatal:
  "foldA (freeResource_and_delete e ctx) rs s \<noteq> Inl Fatal"
proof (induction rs arbitrary: s)
  case Nil
  show ?case by simp
next
  case (Cons r rs)
  show ?case
    using Cons.IH
    by (cases "resources s r") (simp_all add: freeResource_and_delete_def)
qed

lemma deletePendingResources_not_Fatal:
  "deletePendingResources e g ctx s \<noteq> Inl Fatal"
  by (simp add: deletePendingResources_def foldA_free_not_Fatal split: option.split)

lemma doneCurrent_not_Fatal: "doneCurrent e c s \<noteq> Inl Fatal"
  by (auto simp: doneCurrent_def bindA_eq_Inl deletePendingResources_not_Fatal
           split: option.splits if_splits)

text \<open>
  C4. On a valid context, \<open>makeCurrent\<close> called from a thread other than the one the
  context object belongs to, with \<open>Qt::AA_DontCheckOpenGLContextThreadAffinity\<close> not
  set, ends in \<open>qFatal\<close>, whatever the surface. Called on the context's own thread it
  never ends in \<open>qFatal\<close>.
\<close>

theorem makeCurrent_thread_affinity:
  "isValid s c \<Longrightarrow>
     (\<not> AA_DontCheckOpenGLContextThreadAffinity e
        \<and> d_thread (contexts s c) \<noteq> QThread_currentThread e
      \<longrightarrow> makeCurrent e c surf s = Inl Fatal)
     \<and> (d_thread (contexts s c) = QThread_currentThread e
      \<longrightarrow> makeCurrent e c surf s \<noteq> Inl Fatal)"
  by (auto simp: makeCurrent_def affinityCheckFails_def bindA_eq_Inl doneCurrent_not_Fatal
                 deletePendingResources_not_Fatal Let_def
           split: option.splits)

theorem makeCurrent_thread_affinity_witness:
  "isValid st_created 0
   \<and> makeCurrent env_other 0 (Some window_surface) st_created = Inl Fatal
   \<and> makeCurrent env_main 0 (Some window_surface) st_created \<noteq> Inl Fatal"
proof -
  have v: "isValid st_created 0"
    by (simp add: st_created_eq scenario_defs)
  have a: "\<not> AA_DontCheckOpenGLContextThreadAffinity env_other
           \<and> d_thread (contexts st_created 0) \<noteq> QThread_currentThread env_other"
    by (simp add: st_created_eq scenario_defs)
  have b: "d_thread (contexts st_created 0) = QThread_currentThread env_main"
    by (simp add: st_created_eq scenario_defs)
  show ?thesis
    using v a b
      makeCurrent_thread_affinity [OF v, of env_other "Some window_surface"]
      makeCurrent_thread_affinity [OF v, of env_main "Some window_surface"]
    by blast
qed

section \<open>Failure of makeCurrent changes nothing\<close>

text \<open>
  C9. When \<open>makeCurrent\<close> is called with a non-null surface and returns false, the
  current context of every thread and the surface of every context are what they were
  before the call; indeed nothing but the trace (a warning, or the failed platform
  call) has changed.
\<close>

theorem makeCurrent_failure_atomic:
  "makeCurrent e c (Some sf) s = Inr (s', False) \<Longrightarrow>
     currentContext e' s' = currentContext e' s
     \<and> surface s' c' = surface s c'
     \<and> s'\<lparr>trace := trace s\<rparr> = s"
  by (auto simp: makeCurrent_def Let_def bindA_eq_Inr currentContext_def surface_def emit_def
           split: if_splits option.splits)

theorem makeCurrent_failure_atomic_witness:
  "makeCurrent env_main 0 (Some raster_surface) st_created
     = Inr (emit (Warning MakeCurrentNonOpenGLSurface) st_created, False)
   \<and> currentContext env_main (emit (Warning MakeCurrentNonOpenGLSurface) st_created)
       = currentContext env_main st_created
   \<and> surface (emit (Warning MakeCurrentNonOpenGLSurface) st_created) 0 = surface st_created 0"
proof -
  have h: "makeCurrent env_main 0 (Some raster_surface) st_created
             = Inr (emit (Warning MakeCurrentNonOpenGLSurface) st_created, False)"
    by (simp add: st_created_eq scenario_defs)
  show ?thesis
    using h makeCurrent_failure_atomic [OF h, of env_main 0] by simp
qed

section \<open>swapBuffers\<close>



section \<open>Draining the pending list\<close>

lemma foldA_free_frame:
  "foldA (freeResource_and_delete e ctx) rs s = Inr s' \<Longrightarrow>
     contexts s' = contexts s \<and> groups s' = groups s
     \<and> qwindow_context_storage s' = qwindow_context_storage s
     \<and> multi s' = multi s \<and> group_counter s' = group_counter s
     \<and> resource_counter s' = resource_counter s
     \<and> deleteLater_posted s' = deleteLater_posted s
     \<and> needsWorkaroundSet s' = needsWorkaroundSet s \<and> needsWorkaround s' = needsWorkaround s
     \<and> resources s' = (\<lambda>r. if r \<in> set rs then None else resources s r)"
proof (induction rs arbitrary: s)
  case Nil
  then show ?case by simp
next
  case (Cons r rs)
  from Cons.prems obtain s1 where
    s1: "freeResource_and_delete e ctx r s = Inr s1" and
    rest: "foldA (freeResource_and_delete e ctx) rs s1 = Inr s'"
    by (auto simp: bindA_eq_Inr)
  from s1 have f1: "contexts s1 = contexts s \<and> groups s1 = groups s
     \<and> qwindow_context_storage s1 = qwindow_context_storage s
     \<and> multi s1 = multi s \<and> group_counter s1 = group_counter s
     \<and> resource_counter s1 = resource_counter s
     \<and> deleteLater_posted s1 = deleteLater_posted s
     \<and> needsWorkaroundSet s1 = needsWorkaroundSet s \<and> needsWorkaround s1 = needsWorkaround s
     \<and> resources s1 = (resources s)(r := None)"
    by (auto simp: freeResource_and_delete_def emit_def split: option.splits)
  from Cons.IH [OF rest] f1 show ?case
    by (auto simp: fun_eq_iff)
qed

lemma foldA_free_returns:
  "distinct rs \<Longrightarrow> \<forall>r \<in> set rs. resources s r \<noteq> None \<Longrightarrow>
     \<exists>s'. foldA (freeResource_and_delete e ctx) rs s = Inr s'"
proof (induction rs arbitrary: s)
  case Nil
  show ?case by simp
next
  case (Cons r rs)
  from Cons.prems obtain grp where g: "resources s r = Some grp" by auto
  let ?s1 = "(emit (FreeResource r ctx grp (currentContext e s) (currentContextGroup e s)) s)
                 \<lparr>resources := (resources s)(r := None)\<rparr>"
  have s1: "freeResource_and_delete e ctx r s = Inr ?s1"
    by (simp add: freeResource_and_delete_def g)
  have "\<forall>r' \<in> set rs. resources ?s1 r' \<noteq> None"
    using Cons.prems by auto
  with Cons.IH [of ?s1] Cons.prems obtain s' where
    "foldA (freeResource_and_delete e ctx) rs ?s1 = Inr s'" by auto
  with s1 show ?case by simp
qed

lemma deletePendingResources_frame:
  "deletePendingResources e g ctx s = Inr s' \<Longrightarrow>
     contexts s' = contexts s
     \<and> qwindow_context_storage s' = qwindow_context_storage s
     \<and> multi s' = multi s \<and> group_counter s' = group_counter s
     \<and> resource_counter s' = resource_counter s
     \<and> deleteLater_posted s' = deleteLater_posted s
     \<and> needsWorkaroundSet s' = needsWorkaroundSet s \<and> needsWorkaround s' = needsWorkaround s"
  by (auto simp: deletePendingResources_def split: option.splits dest!: foldA_free_frame)

lemma deletePendingResources_returns:
  "groups s g = Some G \<Longrightarrow> distinct (m_pendingDeletion G) \<Longrightarrow>
   \<forall>r \<in> set (m_pendingDeletion G). resources s r \<noteq> None \<Longrightarrow>
     \<exists>s'. deletePendingResources e g ctx s = Inr s'"
  using foldA_free_returns [of "m_pendingDeletion G" "set_grp g (G\<lparr>m_pendingDeletion := []\<rparr>) s" e ctx]
  by (simp add: deletePendingResources_def)

lemma doneCurrent_returns:
  "drainable s c \<Longrightarrow> \<exists>s'. doneCurrent e c s = Inr s'"
  by (auto simp: doneCurrent_def drainable_def bindA_eq_Inr split: option.splits
           dest: deletePendingResources_returns)

lemma deletePendingResources_currentContext:
  "deletePendingResources e g ctx s = Inr s' \<Longrightarrow> currentContext e' s' = currentContext e' s"
  by (auto simp: currentContext_def dest!: deletePendingResources_frame)


lemma glyphCacheWorkaround_frame [simp]:
  "groups (glyphCacheWorkaround e c s) = groups s"
  "resources (glyphCacheWorkaround e c s) = resources s"
  "qwindow_context_storage (glyphCacheWorkaround e c s) = qwindow_context_storage s"
  "trace (glyphCacheWorkaround e c s) = trace s"
  "multi (glyphCacheWorkaround e c s) = multi s"
  "group_counter (glyphCacheWorkaround e c s) = group_counter s"
  "resource_counter (glyphCacheWorkaround e c s) = resource_counter s"
  "deleteLater_posted (glyphCacheWorkaround e c s) = deleteLater_posted s"
  "d_shareGroup (contexts (glyphCacheWorkaround e c s) c') = d_shareGroup (contexts s c')"
  "d_platformGLContext (contexts (glyphCacheWorkaround e c s) c') = d_platformGLContext (contexts s c')"
  "d_shareContext (contexts (glyphCacheWorkaround e c s) c') = d_shareContext (contexts s c')"
  "d_surface (contexts (glyphCacheWorkaround e c s) c') = d_surface (contexts s c')"
  "d_thread (contexts (glyphCacheWorkaround e c s) c') = d_thread (contexts s c')"
  by (simp_all add: glyphCacheWorkaround_def Let_def)

lemma setCurrentContext_frame [simp]:
  "contexts (fst (setCurrentContext e x s)) = contexts s"
  "groups (fst (setCurrentContext e x s)) = groups s"
  "resources (fst (setCurrentContext e x s)) = resources s"
  "multi (fst (setCurrentContext e x s)) = multi s"
  "group_counter (fst (setCurrentContext e x s)) = group_counter s"
  "resource_counter (fst (setCurrentContext e x s)) = resource_counter s"
  "deleteLater_posted (fst (setCurrentContext e x s)) = deleteLater_posted s"
  "needsWorkaroundSet (fst (setCurrentContext e x s)) = needsWorkaroundSet s"
  "needsWorkaround (fst (setCurrentContext e x s)) = needsWorkaround s"
  by (simp_all add: setCurrentContext_def split: option.splits)

section \<open>The result of makeCurrent\<close>





section \<open>makeCurrent with a null surface\<close>

text \<open>
  C10 (amended). On a valid context whose thread-affinity check passes,
  \<open>makeCurrent(nullptr)\<close> does what \<open>doneCurrent()\<close> does and returns true (and it does
  return when the pending list can be drained). On an invalid context \<open>makeCurrent\<close>
  returns false and leaves the whole state as it was.
\<close>

theorem makeCurrent_null_surface:
  "(isValid s c \<and> \<not> affinityCheckFails e s c
      \<longrightarrow> makeCurrent e c None s = bindA (doneCurrent e c s) (\<lambda>s'. Inr (s', True)))
   \<and> (isValid s c \<and> \<not> affinityCheckFails e s c \<and> drainable s c
      \<longrightarrow> (\<exists>s'. doneCurrent e c s = Inr s' \<and> makeCurrent e c None s = Inr (s', True)))
   \<and> (\<not> isValid s c \<longrightarrow> makeCurrent e c surf s = Inr (s, False))"
  using doneCurrent_returns [of s c e]
  by (auto simp: makeCurrent_def)


text \<open>
  The claim as stated fails: from another thread \<open>makeCurrent(nullptr)\<close> ends in
  \<open>qFatal\<close>, while \<open>doneCurrent()\<close> returns.
\<close>

theorem makeCurrent_null_surface_counterexample:
  "isValid st_created 0
   \<and> makeCurrent env_other 0 None st_created = Inl Fatal
   \<and> doneCurrent env_other 0 st_created
       = Inr (upd_ctx 0 (\<lambda>d. d\<lparr>d_surface := None\<rparr>) (emit (PlatformDoneCurrent 0) st_created))"
  by (simp add: st_created_eq scenario_defs)

theorem makeCurrent_null_surface_witness:
  "isValid st_created 0 \<and> \<not> affinityCheckFails env_main st_created 0 \<and> drainable st_created 0
   \<and> returned (makeCurrent env_main 0 None st_created) = Some True
   \<and> makeCurrent env_main 0 None st_created
       = bindA (doneCurrent env_main 0 st_created) (\<lambda>s'. Inr (s', True))
   \<and> \<not> isValid init 0
   \<and> makeCurrent env_main 0 None init = Inr (init, False)"
proof -
  have h: "isValid st_created 0 \<and> \<not> affinityCheckFails env_main st_created 0
           \<and> drainable st_created 0"
    by (simp add: st_created_eq scenario_defs drainable_def)
  have i: "\<not> isValid init 0"
    by (simp add: scenario_defs)
  show ?thesis
    using h i makeCurrent_null_surface [of st_created 0 env_main]
      makeCurrent_null_surface [of init 0 env_main None]
    by (auto simp: returned_def)
qed

section \<open>One current context per thread\<close>

lemma doneCurrent_currentContext:
  assumes "doneCurrent e c s = Inr s'" "isValid s c"
  shows "currentContext e s' = None"
    and "tid e' \<noteq> tid e \<Longrightarrow> currentContext e' s' = currentContext e' s"
  using assms
  by (auto simp: doneCurrent_def bindA_eq_Inr currentContext_def setCurrentContext_def
           split: if_splits option.splits dest!: deletePendingResources_frame)


lemma setCurrentContext_currentContext:
  "currentContext e' (fst (setCurrentContext e x s)) =
     (if tid e' = tid e
      then (if hasQThread e \<or> qwindow_context_storage s (tid e) \<noteq> None then x else None)
      else currentContext e' s)"
  by (auto simp: setCurrentContext_def currentContext_def split: option.splits)

lemma currentContext_frame:
  "qwindow_context_storage s' = qwindow_context_storage s \<Longrightarrow>
     currentContext e s' = currentContext e s"
  by (simp add: currentContext_def)

lemma makeCurrent_success_currentContext:
  assumes "makeCurrent e c (Some sf) s = Inr (s', True)"
  shows "currentContext e' s' =
           (if tid e' = tid e
            then (if hasQThread e \<or> qwindow_context_storage s (tid e) \<noteq> None
                  then Some c else None)
            else currentContext e' s)"
proof -
  from assms obtain h g s3 where
    s3: "s3 = glyphCacheWorkaround e c
       (upd_ctx c (\<lambda>d. d\<lparr>d_surface := Some sf\<rparr>)
          (fst (setCurrentContext e (Some c) (emit (PlatformMakeCurrent c h True) s))))"
    and dr: "deletePendingResources e g c s3 = Inr s'"
    by (auto simp: makeCurrent_def Let_def bindA_eq_Inr split: if_splits option.splits)
  have "currentContext e' s' = currentContext e' s3"
    using dr by (rule deletePendingResources_currentContext)
  also have "\<dots> = currentContext e'
       (fst (setCurrentContext e (Some c) (emit (PlatformMakeCurrent c h True) s)))"
    by (rule currentContext_frame) (simp add: s3)
  also have "\<dots> = (if tid e' = tid e
            then (if hasQThread e \<or> qwindow_context_storage s (tid e) \<noteq> None
                  then Some c else None)
            else currentContext e' s)"
    by (simp add: setCurrentContext_currentContext) (simp add: currentContext_def)
  finally show ?thesis .
qed

lemma doneCurrent_other_thread:
  "doneCurrent e c s = Inr s' \<Longrightarrow> tid e' \<noteq> tid e \<Longrightarrow>
     currentContext e' s' = currentContext e' s"
  by (auto simp: doneCurrent_def bindA_eq_Inr currentContext_def setCurrentContext_def
           split: if_splits option.splits dest!: deletePendingResources_frame)

text \<open>
  C2 (amended). The thread-local storage holds one context pointer per thread. After a
  successful \<open>makeCurrent\<close> with a non-null surface, in a thread whose storage is
  available (\<open>QThread::currentThread()\<close> is non-null, or the storage exists already),
  \<open>currentContext()\<close> of that thread is the context; after \<open>doneCurrent()\<close> on a valid
  context, \<open>currentContext()\<close> of that thread is null. The current context of every
  other thread is untouched by both.
\<close>

theorem one_current_context_per_thread:
  "(makeCurrent e c (Some sf) s = Inr (s', True)
      \<and> (hasQThread e \<or> qwindow_context_storage s (tid e) \<noteq> None)
      \<longrightarrow> currentContext e s' = Some c)
   \<and> (makeCurrent e c (Some sf) s = Inr (s', True) \<and> tid e' \<noteq> tid e
      \<longrightarrow> currentContext e' s' = currentContext e' s)
   \<and> (isValid s c \<and> doneCurrent e c s = Inr s'' \<longrightarrow> currentContext e s'' = None)
   \<and> (doneCurrent e c s = Inr s'' \<and> tid e' \<noteq> tid e
      \<longrightarrow> currentContext e' s'' = currentContext e' s)"
  using makeCurrent_success_currentContext [of e c sf s s']
    doneCurrent_currentContext(1) [of e c s s''] doneCurrent_other_thread [of e c s s'' e']
  by auto

lemma st_lost_eq:
  "st_lost = st_created\<lparr>contexts := (contexts st_created)(0 :=
                        (contexts st_created 0)\<lparr>d_platformGLContext := Some (pc_plain\<lparr>pc_isValid := False\<rparr>),
                                           d_surface := Some window_surface\<rparr>),
                     qwindow_context_storage := [0 \<mapsto> Some 0],
                     needsWorkaroundSet := True,
                     trace := [PlatformMakeCurrent 0 7 True]\<rparr>"
  by (simp add: st_lost_def st_created_eq scenario_defs upd_ctx_def set_grp_def emit_def)

text \<open>
  The claim as stated fails twice. A current context that the platform has lost stays
  current after \<open>doneCurrent()\<close>, which returns at once on an invalid context. And in a
  thread without thread-local storage \<open>makeCurrent\<close> returns true while
  \<open>currentContext()\<close> stays null.
\<close>

theorem one_current_context_per_thread_counterexample:
  "currentContext env_main st_lost = Some 0
   \<and> doneCurrent env_main 0 st_lost = Inr st_lost
   \<and> returned (makeCurrent env_noqtls 0 (Some window_surface) st_created) = Some True
   \<and> map_option (currentContext env_noqtls)
        (state_after (makeCurrent env_noqtls 0 (Some window_surface) st_created)) = Some None"
  by (simp add: st_lost_eq st_created_eq scenario_defs 
       upd_ctx_def set_grp_def emit_def)

theorem one_current_context_per_thread_witness:
  "returned (makeCurrent env_main 0 (Some window_surface) st_created) = Some True
   \<and> map_option (currentContext env_main)
        (state_after (makeCurrent env_main 0 (Some window_surface) st_created)) = Some (Some 0)
   \<and> map_option (currentContext env_other)
        (state_after (makeCurrent env_main 0 (Some window_surface) st_created))
         = Some (currentContext env_other st_created)
   \<and> isValid st_created 0
   \<and> map_option (currentContext env_main)
        (state_after (bindA (doneCurrent env_main 0 st_created) (\<lambda>s. Inr (s, ())))) = Some None"
proof -
  obtain s' where m: "makeCurrent env_main 0 (Some window_surface) st_created = Inr (s', True)"
    by (simp add: st_created_eq scenario_defs)
  obtain s'' where d: "doneCurrent env_main 0 st_created = Inr s''"
    by (simp add: st_created_eq scenario_defs)
  have h: "hasQThread env_main \<and> tid env_other \<noteq> tid env_main \<and> isValid st_created 0"
    by (simp add: st_created_eq scenario_defs)
  show ?thesis
    using m d h one_current_context_per_thread [of env_main 0 window_surface st_created s' env_other s'']
    by (simp add: returned_def state_after_def)
qed

section \<open>Every freeResource call is made in the current group\<close>

lemma lists_set_grp [simp]:
  "sharedOf (set_grp g G s) g' = (if g' = g then m_sharedResources G else sharedOf s g')"
  "pendingOf (set_grp g G s) g' = (if g' = g then m_pendingDeletion G else pendingOf s g')"
  "mresOf (set_grp g G s) g' = (if g' = g then m_resources G else mresOf s g')"
  by (simp_all add: sharedOf_def pendingOf_def mresOf_def)

lemma lists_cong:
  "groups s' = groups s \<Longrightarrow> sharedOf s' = sharedOf s"
  "groups s' = groups s \<Longrightarrow> pendingOf s' = pendingOf s"
  "groups s' = groups s \<Longrightarrow> mresOf s' = mresOf s"
  by (simp_all add: sharedOf_def pendingOf_def mresOf_def fun_eq_iff)

lemma lists_field_updates [simp]:
  "sharedOf (s\<lparr>resources := x1\<rparr>) = sharedOf s"
  "pendingOf (s\<lparr>resources := x1\<rparr>) = pendingOf s"
  "sharedOf (s\<lparr>multi := x2\<rparr>) = sharedOf s"
  "pendingOf (s\<lparr>multi := x2\<rparr>) = pendingOf s"
  "sharedOf (s\<lparr>deleteLater_posted := x3\<rparr>) = sharedOf s"
  "pendingOf (s\<lparr>deleteLater_posted := x3\<rparr>) = pendingOf s"
  "sharedOf (s\<lparr>resource_counter := x4\<rparr>) = sharedOf s"
  "pendingOf (s\<lparr>resource_counter := x4\<rparr>) = pendingOf s"
  "sharedOf (s\<lparr>group_counter := x5\<rparr>) = sharedOf s"
  "pendingOf (s\<lparr>group_counter := x5\<rparr>) = pendingOf s"
  "sharedOf (emit ev s) = sharedOf s"
  "pendingOf (emit ev s) = pendingOf s"
  "sharedOf (upd_ctx c f s) = sharedOf s"
  "pendingOf (upd_ctx c f s) = pendingOf s"
  by (simp_all add: sharedOf_def pendingOf_def fun_eq_iff)

lemma lists_live:
  "groups s g = Some G \<Longrightarrow> sharedOf s g = m_sharedResources G"
  "groups s g = Some G \<Longrightarrow> pendingOf s g = m_pendingDeletion G"
  "groups s g = Some G \<Longrightarrow> mresOf s g = m_resources G"
  by (simp_all add: sharedOf_def pendingOf_def mresOf_def)

lemma lists_dead:
  "groups s g = None \<Longrightarrow> sharedOf s g = []"
  "groups s g = None \<Longrightarrow> pendingOf s g = []"
  "groups s g = None \<Longrightarrow> mresOf s g = []"
  by (simp_all add: sharedOf_def pendingOf_def mresOf_def)

text \<open>The loop of deletePendingResources, exactly.\<close>

lemma currentContextGroup_frame:
  "qwindow_context_storage s' = qwindow_context_storage s \<Longrightarrow> contexts s' = contexts s \<Longrightarrow>
     currentContextGroup e s' = currentContextGroup e s"
  by (simp add: currentContextGroup_def currentContext_def shareGroup_def split: option.splits)

lemma foldA_free_trace:
  "foldA (freeResource_and_delete e ctx) rs s = Inr s' \<Longrightarrow>
     distinct rs \<and> (\<forall>r \<in> set rs. resources s r \<noteq> None)
     \<and> trace s' = trace s @ map (\<lambda>r. FreeResource r ctx (the (resources s r))
                                      (currentContext e s) (currentContextGroup e s)) rs"
proof (induction rs arbitrary: s)
  case Nil
  then show ?case by simp
next
  case (Cons r rs)
  from Cons.prems obtain s1 where
    s1: "freeResource_and_delete e ctx r s = Inr s1" and
    rest: "foldA (freeResource_and_delete e ctx) rs s1 = Inr s'"
    by (auto simp: bindA_eq_Inr)
  from s1 obtain grp where grp: "resources s r = Some grp"
    and s1_eq: "s1 = (emit (FreeResource r ctx grp (currentContext e s) (currentContextGroup e s)) s)
                 \<lparr>resources := (resources s)(r := None)\<rparr>"
    by (auto simp: freeResource_and_delete_def split: option.splits)
  have cc: "currentContext e s1 = currentContext e s"
    "currentContextGroup e s1 = currentContextGroup e s"
    by (rule currentContext_frame, simp add: s1_eq)
       (rule currentContextGroup_frame, simp_all add: s1_eq)
  have res1: "resources s1 = (resources s)(r := None)" and tr1: "trace s1 = trace s @
     [FreeResource r ctx grp (currentContext e s) (currentContextGroup e s)]"
    by (simp_all add: s1_eq)
  from Cons.IH [OF rest] have
    d: "distinct rs" and l: "\<forall>r' \<in> set rs. resources s1 r' \<noteq> None"
    and t: "trace s' = trace s1 @ map (\<lambda>r. FreeResource r ctx (the (resources s1 r))
                                      (currentContext e s1) (currentContextGroup e s1)) rs"
    by auto
  from l res1 have notin: "r \<notin> set rs" by auto
  have same: "\<forall>r' \<in> set rs. resources s1 r' = resources s r'"
    using notin res1 by auto
  have "map (\<lambda>r. FreeResource r ctx (the (resources s1 r))
               (currentContext e s1) (currentContextGroup e s1)) rs
        = map (\<lambda>r. FreeResource r ctx (the (resources s r))
               (currentContext e s) (currentContextGroup e s)) rs"
    using same cc by simp
  with t tr1 grp d notin l same show ?case by auto
qed

lemma deletePendingResources_effect:
  assumes "deletePendingResources e g ctx s = Inr s'"
  shows "\<exists>G. groups s g = Some G
     \<and> groups s' = (groups s)(g \<mapsto> G\<lparr>m_pendingDeletion := []\<rparr>)
     \<and> resources s' = (\<lambda>r. if r \<in> set (m_pendingDeletion G) then None else resources s r)
     \<and> distinct (m_pendingDeletion G) \<and> (\<forall>r \<in> set (m_pendingDeletion G). resources s r \<noteq> None)
     \<and> trace s' = trace s @ map (\<lambda>r. FreeResource r ctx (the (resources s r))
                                      (currentContext e s) (currentContextGroup e s))
                                (m_pendingDeletion G)"
proof -
  from assms obtain G where G: "groups s g = Some G"
    and f: "foldA (freeResource_and_delete e ctx) (m_pendingDeletion G)
              (set_grp g (G\<lparr>m_pendingDeletion := []\<rparr>) s) = Inr s'"
    by (auto simp: deletePendingResources_def split: option.splits)
  let ?s0 = "set_grp g (G\<lparr>m_pendingDeletion := []\<rparr>) s"
  have cc: "currentContext e ?s0 = currentContext e s"
    "currentContextGroup e ?s0 = currentContextGroup e s"
    by (rule currentContext_frame, simp)
       (rule currentContextGroup_frame, simp_all)
  from foldA_free_frame [OF f] foldA_free_trace [OF f] G cc show ?thesis
    by (simp cong: if_cong)
qed

lemma deletePendingResources_lists:
  assumes "deletePendingResources e g ctx s = Inr s'"
  shows "sharedOf s' = sharedOf s" "pendingOf s' = (pendingOf s)(g := [])"
  using deletePendingResources_effect [OF assms]
  by (auto simp: sharedOf_def pendingOf_def fun_eq_iff)














text \<open>The loops of cleanup, exactly.\<close>

lemma foldA_detach_effect:
  "foldA invalidate_and_detach ys s = Inr s' \<Longrightarrow>
     groups s' = groups s \<and> contexts s' = contexts s
     \<and> qwindow_context_storage s' = qwindow_context_storage s
     \<and> multi s' = multi s \<and> group_counter s' = group_counter s
     \<and> resource_counter s' = resource_counter s
     \<and> deleteLater_posted s' = deleteLater_posted s
     \<and> resources s' = (\<lambda>r. if r \<in> set ys then Some None else resources s r)
     \<and> (\<forall>r \<in> set ys. resources s r \<noteq> None)
     \<and> trace s' = trace s @ map InvalidateResource ys"
proof (induction ys arbitrary: s)
  case Nil
  then show ?case by simp
next
  case (Cons r ys)
  from Cons.prems obtain s1 where
    s1: "invalidate_and_detach r s = Inr s1" and
    rest: "foldA invalidate_and_detach ys s1 = Inr s'"
    by (auto simp: bindA_eq_Inr)
  from s1 have live: "resources s r \<noteq> None"
    and s1_eq: "s1 = (emit (InvalidateResource r) s)\<lparr>resources := (resources s)(r \<mapsto> None)\<rparr>"
    by (auto simp: invalidate_and_detach_def invalidateResource_def bindA_eq_Inr
             split: option.splits)
  from Cons.IH [OF rest] live show ?case
    by (auto simp: s1_eq fun_eq_iff split: if_splits)
qed

lemma foldA_delete_effect:
  "foldA delete_resource zs s = Inr s' \<Longrightarrow>
     groups s' = groups s \<and> contexts s' = contexts s
     \<and> qwindow_context_storage s' = qwindow_context_storage s
     \<and> multi s' = multi s \<and> group_counter s' = group_counter s
     \<and> resource_counter s' = resource_counter s
     \<and> deleteLater_posted s' = deleteLater_posted s
     \<and> resources s' = (\<lambda>r. if r \<in> set zs then None else resources s r)
     \<and> (\<forall>r \<in> set zs. resources s r \<noteq> None) \<and> distinct zs
     \<and> trace s' = trace s"
proof (induction zs arbitrary: s)
  case Nil
  then show ?case by simp
next
  case (Cons r zs)
  from Cons.prems obtain s1 where
    s1: "delete_resource r s = Inr s1" and
    rest: "foldA delete_resource zs s1 = Inr s'"
    by (auto simp: bindA_eq_Inr)
  from s1 have live: "resources s r \<noteq> None"
    and s1_eq: "s1 = s\<lparr>resources := (resources s)(r := None)\<rparr>"
    by (auto simp: delete_resource_def split: option.splits)
  from Cons.IH [OF rest] live show ?case
    by (auto simp: s1_eq fun_eq_iff split: if_splits)
qed

lemma foldA_invariant:
  assumes "foldA f xs s = Inr s'" and "I s"
    and "\<And>x t t'. x \<in> set xs \<Longrightarrow> I t \<Longrightarrow> f x t = Inr t' \<Longrightarrow> I t'"
  shows "I s'"
  using assms
proof (induction xs arbitrary: s)
  case Nil
  then show ?case by simp
next
  case (Cons x xs)
  from Cons.prems(1) obtain s1 where s1: "f x s = Inr s1" and rest: "foldA f xs s1 = Inr s'"
    by (auto simp: bindA_eq_Inr)
  have s1_inv: "I s1" using Cons.prems(3) [of x s s1] Cons.prems(2) s1 by simp
  show ?case
  proof (rule Cons.IH [OF rest s1_inv])
    fix y t t'
    assume "y \<in> set xs" "I t" "f y t = Inr t'"
    then show "I t'" using Cons.prems(3) [of y t t'] by simp
  qed
qed



lemma cleanup_effect:
  assumes "cleanup e g s = Inr s'"
  shows "\<exists>G s1 G1. groups s g = Some G
     \<and> foldA (multi_cleanup e g) (m_resources G) s = Inr s1
     \<and> groups s1 g = Some G1
     \<and> groups s' = (groups s1)(g \<mapsto> G1\<lparr>m_resources := [], m_sharedResources := [],
                                          m_pendingDeletion := []\<rparr>)
     \<and> resources s' = (\<lambda>r. if r \<in> set (m_pendingDeletion G1) then None
                            else if r \<in> set (m_sharedResources G1) then Some None
                            else resources s1 r)
     \<and> (\<forall>r \<in> set (m_sharedResources G1). resources s1 r \<noteq> None)
     \<and> trace s' = trace s1 @ map InvalidateResource (m_sharedResources G1)
     \<and> contexts s' = contexts s1
     \<and> qwindow_context_storage s' = qwindow_context_storage s1
     \<and> multi s' = multi s1 \<and> group_counter s' = group_counter s1
     \<and> resource_counter s' = resource_counter s1
     \<and> deleteLater_posted s' = deleteLater_posted s1"
proof -
  from assms obtain G s1 G1 s2 G2 s3 G3 where
    G: "groups s g = Some G"
    and p1: "foldA (multi_cleanup e g) (m_resources G) s = Inr s1"
    and G1: "groups s1 g = Some G1"
    and p2: "foldA invalidate_and_detach (m_sharedResources G1)
               (set_grp g (G1\<lparr>m_resources := []\<rparr>) s1) = Inr s2"
    and G2: "groups s2 g = Some G2"
    and p3: "foldA delete_resource (m_pendingDeletion G2)
               (set_grp g (G2\<lparr>m_sharedResources := []\<rparr>) s2) = Inr s3"
    and G3: "groups s3 g = Some G3"
    and s': "s' = set_grp g (G3\<lparr>m_pendingDeletion := []\<rparr>) s3"
    by (auto simp: cleanup_def bindA_eq_Inr split: option.splits)
  note e2 = foldA_detach_effect [OF p2]
  from e2 G2 have G2_eq: "G2 = G1\<lparr>m_resources := []\<rparr>" by simp
  note e3 = foldA_delete_effect [OF p3]
  from e3 G3 have G3_eq: "G3 = G2\<lparr>m_sharedResources := []\<rparr>" by simp
  have grp: "groups s' = (groups s1)(g \<mapsto> G1\<lparr>m_resources := [], m_sharedResources := [],
                                          m_pendingDeletion := []\<rparr>)"
    using e2 e3 by (simp add: s' G3_eq G2_eq)
  have res: "resources s' = (\<lambda>r. if r \<in> set (m_pendingDeletion G1) then None
                            else if r \<in> set (m_sharedResources G1) then Some None
                            else resources s1 r)"
    using e2 e3 by (simp add: s' G2_eq fun_eq_iff)
  have live: "\<forall>r \<in> set (m_sharedResources G1). resources s1 r \<noteq> None"
    using e2 by simp
  have rest: "trace s' = trace s1 @ map InvalidateResource (m_sharedResources G1)
     \<and> contexts s' = contexts s1
     \<and> qwindow_context_storage s' = qwindow_context_storage s1
     \<and> multi s' = multi s1 \<and> group_counter s' = group_counter s1
     \<and> resource_counter s' = resource_counter s1
     \<and> deleteLater_posted s' = deleteLater_posted s1"
    using e2 e3 by (simp add: s')
  from G p1 G1 grp res live rest show ?thesis by blast
qed



















lemma freed_append [simp]: "freed (xs @ ys) = freed xs @ freed ys"
  by (induction xs rule: freed.induct) simp_all

lemma freed_map_FreeResource [simp]:
  "freed (map (\<lambda>r. FreeResource r ctx (f r) cur cg) rs) = rs"
  by (induction rs) simp_all

lemma freed_map_Invalidate [simp]: "freed (map InvalidateResource ys) = []"
  by (induction ys) simp_all








section \<open>Where resources are released\<close>






section \<open>Consistent states are kept\<close>

lemma mem_same_refl [simp]: "mem_same s s"
  by (auto simp: mem_same_def)

lemma mem_sameD:
  assumes "mem_same s s'"
  shows "shareGroup s' = shareGroup s"
    and "handle s' = handle s"
    and "group_counter s' = group_counter s"
    and "deleteLater_posted s' = deleteLater_posted s"
    and "(groups s' g = None) = (groups s g = None)"
    and "groups s g = Some G \<Longrightarrow> groups s' g = Some G' \<Longrightarrow>
           m_shares G' = m_shares G \<and> m_refs G' = m_refs G
           \<and> g_thread G' = g_thread G \<and> m_context G' = m_context G"
  using assms unfolding mem_same_def by blast+

lemma mem_sameI2:
  assumes "shareGroup s' = shareGroup s"
    and "handle s' = handle s"
    and "group_counter s' = group_counter s"
    and "deleteLater_posted s' = deleteLater_posted s"
    and "\<And>g. (groups s' g = None) = (groups s g = None)"
    and "\<And>g G G'. groups s g = Some G \<Longrightarrow> groups s' g = Some G' \<Longrightarrow>
           m_shares G' = m_shares G \<and> m_refs G' = m_refs G
           \<and> g_thread G' = g_thread G \<and> m_context G' = m_context G"
  shows "mem_same s s'"
  using assms unfolding mem_same_def by blast

lemma mem_sameI:
  assumes c: "contexts s' = contexts s"
    and "group_counter s' = group_counter s"
    and "deleteLater_posted s' = deleteLater_posted s"
    and "\<And>g. (groups s' g = None) = (groups s g = None)"
    and "\<And>g G G'. groups s g = Some G \<Longrightarrow> groups s' g = Some G' \<Longrightarrow>
           m_shares G' = m_shares G \<and> m_refs G' = m_refs G
           \<and> g_thread G' = g_thread G \<and> m_context G' = m_context G"
  shows "mem_same s s'"
proof (rule mem_sameI2)
  show "shareGroup s' = shareGroup s" "handle s' = handle s"
    by (simp_all add: shareGroup_def handle_def fun_eq_iff c)
qed (use assms in blast)+

lemma mem_same_trans:
  assumes st: "mem_same s t" and tu: "mem_same t u"
  shows "mem_same s u"
proof (rule mem_sameI2)
  show "shareGroup u = shareGroup s" using mem_sameD(1) [OF st] mem_sameD(1) [OF tu] by simp
  show "handle u = handle s" using mem_sameD(2) [OF st] mem_sameD(2) [OF tu] by simp
  show "group_counter u = group_counter s"
    using mem_sameD(3) [OF st] mem_sameD(3) [OF tu] by simp
  show "deleteLater_posted u = deleteLater_posted s"
    using mem_sameD(4) [OF st] mem_sameD(4) [OF tu] by simp
  show "(groups u g = None) = (groups s g = None)" for g
    using mem_sameD(5) [OF st, of g] mem_sameD(5) [OF tu, of g] by simp
  show "m_shares G' = m_shares G \<and> m_refs G' = m_refs G
           \<and> g_thread G' = g_thread G \<and> m_context G' = m_context G"
    if "groups s g = Some G" "groups u g = Some G'" for g G G'
  proof -
    from that(1) mem_sameD(5) [OF st, of g] obtain H where H: "groups t g = Some H" by auto
    from mem_sameD(6) [OF st that(1) H] mem_sameD(6) [OF tu H that(2)] show ?thesis by simp
  qed
qed

lemma mem_same_shares:
  assumes ss: "mem_same s s'"
  shows "shares s' g = shares s g"
proof (cases "groups s g")
  case None
  with mem_sameD(5) [OF ss, of g] have "groups s' g = None" by simp
  with None show ?thesis by (simp add: shares_def)
next
  case (Some G)
  with mem_sameD(5) [OF ss, of g] obtain G' where G': "groups s' g = Some G'" by auto
  from mem_sameD(6) [OF ss Some G'] Some G' show ?thesis by (simp add: shares_def)
qed

lemma mem_same_wf:
  assumes ss: "mem_same s s'" and w: "mem_wf s"
  shows "mem_wf s'"
proof -
  have sh: "shares s' = shares s" using mem_same_shares [OF ss] by (simp add: fun_eq_iff)
  note hs = mem_sameD(2) [OF ss] mem_sameD(1) [OF ss]
  have a: "\<forall>g G. groups s' g = Some G
            \<longrightarrow> g < group_counter s' \<and> m_refs G = int (length (m_shares G))"
  proof (intro allI impI)
    fix g G' assume G': "groups s' g = Some G'"
    with mem_sameD(5) [OF ss, of g] obtain G where G: "groups s g = Some G" by auto
    from w G have "g < group_counter s \<and> m_refs G = int (length (m_shares G))"
      unfolding mem_wf_def by blast
    with mem_sameD(6) [OF ss G G'] mem_sameD(3) [OF ss]
    show "g < group_counter s' \<and> m_refs G' = int (length (m_shares G'))" by simp
  qed
  have b: "\<forall>g \<in> set (deleteLater_posted s'). groups s' g \<noteq> None \<and> shares s' g = []"
    using w mem_sameD(4) [OF ss] mem_sameD(5) [OF ss] unfolding mem_wf_def sh by auto
  show ?thesis
    unfolding mem_wf_def
    using w a b unfolding mem_wf_def sh hs mem_sameD(4) [OF ss] by blast
qed

lemma res_wf0_live: "res_wf0 s \<Longrightarrow> resources s r = Some mg \<Longrightarrow> r < resource_counter s"
  unfolding res_wf0_def by blast

lemma res_wf0_distinct: "res_wf0 s \<Longrightarrow> distinct (sharedOf s g @ pendingOf s g)"
  unfolding res_wf0_def by blast

lemma res_wf0_iff:
  "res_wf0 s \<Longrightarrow> (r \<in> set (sharedOf s g) \<union> set (pendingOf s g)) = (resources s r = Some (Some g))"
  unfolding res_wf0_def by blast

lemma res_wf0I:
  assumes "\<And>r mg. resources s r = Some mg \<Longrightarrow> r < resource_counter s"
    and "\<And>g. distinct (sharedOf s g @ pendingOf s g)"
    and "\<And>g r. (r \<in> set (sharedOf s g) \<union> set (pendingOf s g)) = (resources s r = Some (Some g))"
  shows "res_wf0 s"
  using assms unfolding res_wf0_def by blast

lemma res_wf0_frame:
  assumes "res_wf0 s" and "groups s' = groups s" and "resources s' = resources s"
    and "resource_counter s' = resource_counter s"
  shows "res_wf0 s'"
  using assms(1,3,4) lists_cong(1,2) [OF assms(2)] unfolding res_wf0_def by simp

lemma mres_wf_at_frame:
  assumes "mres_wf_at s g" and "mresOf s' g = mresOf s g" and "sharedOf s' g = sharedOf s g"
    and "multi s' = multi s"
  shows "mres_wf_at s' g"
  using assms unfolding mres_wf_at_def by simp

lemma drain_returns:
  assumes w: "res_wf0 s" and G: "groups s g = Some G"
  shows "\<exists>s'. deletePendingResources e g ctx s = Inr s'"
proof (rule deletePendingResources_returns [OF G])
  show "distinct (m_pendingDeletion G)"
    using res_wf0_distinct [OF w, of g] by (simp add: lists_live [OF G])
  show "\<forall>r\<in>set (m_pendingDeletion G). resources s r \<noteq> None"
  proof
    fix r assume "r \<in> set (m_pendingDeletion G)"
    then have "r \<in> set (sharedOf s g) \<union> set (pendingOf s g)"
      by (simp add: lists_live [OF G])
    then show "resources s r \<noteq> None" using res_wf0_iff [OF w, of r g] by simp
  qed
qed

lemma drain_mem_same:
  assumes d: "deletePendingResources e g ctx s = Inr s'"
  shows "mem_same s s'"
proof -
  from deletePendingResources_effect [OF d] obtain G where
    G: "groups s g = Some G"
    and grp: "groups s' = (groups s)(g \<mapsto> G\<lparr>m_pendingDeletion := []\<rparr>)"
    by (elim exE conjE) (rule that)
  show ?thesis
    using deletePendingResources_frame [OF d] G
    by (intro mem_sameI) (auto simp: grp split: if_splits)
qed

lemma drain_res_wf0:
  assumes w: "res_wf0 s" and d: "deletePendingResources e g ctx s = Inr s'"
  shows "res_wf0 s'"
proof -
  from deletePendingResources_effect [OF d] obtain G where
    G: "groups s g = Some G"
    and res: "resources s' = (\<lambda>r. if r \<in> set (m_pendingDeletion G) then None else resources s r)"
    by (elim exE conjE) (rule that)
  have pg: "set (m_pendingDeletion G) = set (pendingOf s g)" by (simp add: lists_live [OF G])
  have rc: "resource_counter s' = resource_counter s"
    using deletePendingResources_frame [OF d] by simp
  note l = deletePendingResources_lists [OF d]
  show ?thesis
  proof (rule res_wf0I)
    fix r mg assume "resources s' r = Some mg"
    then have "resources s r = Some mg" by (simp add: res split: if_splits)
    from res_wf0_live [OF w this] show "r < resource_counter s'" by (simp add: rc)
  next
    fix g' show "distinct (sharedOf s' g' @ pendingOf s' g')"
      using res_wf0_distinct [OF w, of g'] by (simp add: l)
  next
    fix g' r
    show "(r \<in> set (sharedOf s' g') \<union> set (pendingOf s' g')) = (resources s' r = Some (Some g'))"
    proof (cases "r \<in> set (pendingOf s g)")
      case True
      then have "resources s r = Some (Some g)" using res_wf0_iff [OF w, of r g] by simp
      then have "r \<in> set (sharedOf s g') \<union> set (pendingOf s g') \<longleftrightarrow> g' = g"
        using res_wf0_iff [OF w, of r g'] by auto
      moreover have "r \<notin> set (sharedOf s g)"
        using True res_wf0_distinct [OF w, of g] by auto
      ultimately show ?thesis using True by (auto simp: l res pg)
    next
      case False
      then show ?thesis using res_wf0_iff [OF w, of r g'] by (auto simp: l res pg)
    qed
  qed
qed

lemma drain_mres:
  assumes d: "deletePendingResources e g ctx s = Inr s'"
  shows "mresOf s' = mresOf s" "multi s' = multi s"
proof -
  from deletePendingResources_effect [OF d] obtain G where
    G: "groups s g = Some G"
    and grp: "groups s' = (groups s)(g \<mapsto> G\<lparr>m_pendingDeletion := []\<rparr>)"
    by (elim exE conjE) (rule that)
  show "mresOf s' = mresOf s" using G by (auto simp: mresOf_def grp fun_eq_iff)
  show "multi s' = multi s" using deletePendingResources_frame [OF d] by simp
qed


lemma live_of_member:
  assumes "r \<in> set (sharedOf s g) \<union> set (pendingOf s g)"
  shows "\<exists>G. groups s g = Some G"
  using assms by (cases "groups s g") (simp_all add: lists_dead)

lemma move_res_wf0:
  assumes w: "res_wf0 s" and G: "groups s g = Some G" and r: "r \<in> set (m_sharedResources G)"
  shows "res_wf0 (set_grp g (G\<lparr>m_sharedResources := remove1 r (m_sharedResources G),
                               m_pendingDeletion := m_pendingDeletion G @ [r]\<rparr>) s)"
    (is "res_wf0 ?s1")
proof (rule res_wf0I)
  fix x mg assume "resources ?s1 x = Some mg"
  then show "x < resource_counter ?s1" using res_wf0_live [OF w, of x mg] by simp
next
  fix g'
  have d: "distinct (m_sharedResources G @ m_pendingDeletion G)"
    using res_wf0_distinct [OF w, of g] by (simp add: lists_live [OF G])
  have "distinct (remove1 r (m_sharedResources G) @ m_pendingDeletion G @ [r])"
    using d r by (auto simp: distinct_remove1 dest: notin_set_remove1)
  then show "distinct (sharedOf ?s1 g' @ pendingOf ?s1 g')"
    using res_wf0_distinct [OF w, of g'] by simp
next
  fix g' x
  have d: "distinct (m_sharedResources G)"
    using res_wf0_distinct [OF w, of g] by (simp add: lists_live [OF G])
  have "set (remove1 r (m_sharedResources G)) \<union> set (m_pendingDeletion G @ [r])
        = set (m_sharedResources G) \<union> set (m_pendingDeletion G)"
    using r d by (auto simp: set_remove1_eq)
  then have eq: "x \<in> set (remove1 r (m_sharedResources G)) \<union> set (m_pendingDeletion G @ [r])
        \<longleftrightarrow> x \<in> set (sharedOf s g) \<union> set (pendingOf s g)"
    by (simp only: lists_live [OF G])
  show "(x \<in> set (sharedOf ?s1 g') \<union> set (pendingOf ?s1 g')) = (resources ?s1 x = Some (Some g'))"
  proof (cases "g' = g")
    case True
    have "(x \<in> set (sharedOf ?s1 g) \<union> set (pendingOf ?s1 g))
          = (x \<in> set (remove1 r (m_sharedResources G)) \<union> set (m_pendingDeletion G @ [r]))"
      by simp
    also have "\<dots> = (resources s x = Some (Some g))"
      using eq res_wf0_iff [OF w, of x g] by blast
    finally show ?thesis using True by simp
  next
    case False
    then show ?thesis using res_wf0_iff [OF w, of x g'] by simp
  qed
qed

lemma free_wf:
  assumes w: "res_wf0 s" and r: "r \<in> set (sharedOf s g)"
  shows "\<exists>s'. free e r s = Inr s' \<and> res_wf0 s' \<and> mem_same s s'
          \<and> mresOf s' = mresOf s \<and> multi s' = multi s
          \<and> sharedOf s' = (sharedOf s)(g := remove1 r (sharedOf s g))"
proof -
  from r live_of_member [of r s g] obtain G where G: "groups s g = Some G" by auto
  have rg: "resources s r = Some (Some g)" using res_wf0_iff [OF w, of r g] r by simp
  define s1 where "s1 = set_grp g (G\<lparr>m_sharedResources := remove1 r (m_sharedResources G),
                                      m_pendingDeletion := m_pendingDeletion G @ [r]\<rparr>) s"
  have w1: "res_wf0 s1" unfolding s1_def
    by (rule move_res_wf0 [OF w G]) (use r in \<open>simp add: lists_live [OF G]\<close>)
  have G1: "groups s1 g = Some (G\<lparr>m_sharedResources := remove1 r (m_sharedResources G),
                                      m_pendingDeletion := m_pendingDeletion G @ [r]\<rparr>)"
    by (simp add: s1_def)
  have m1: "mem_same s s1"
    using G by (intro mem_sameI) (auto simp: s1_def split: if_splits)
  have l1: "mresOf s1 = mresOf s" "multi s1 = multi s"
    "sharedOf s1 = (sharedOf s)(g := remove1 r (sharedOf s g))"
    using G by (auto simp: s1_def mresOf_def sharedOf_def fun_eq_iff)
  show ?thesis
  proof (cases "\<exists>cur. currentContext e s1 = Some cur \<and> shareGroup s1 cur = Some g")
    case False
    then have "free e r s = Inr s1"
      using rg G by (auto simp: free_def Let_def s1_def [symmetric] split: option.splits)
    with w1 m1 l1 show ?thesis by simp
  next
    case True
    then obtain cur where cur: "currentContext e s1 = Some cur" "shareGroup s1 cur = Some g"
      by blast
    from drain_returns [OF w1 G1] obtain s' where d: "deletePendingResources e g cur s1 = Inr s'"
      by blast
    have f: "free e r s = Inr s'"
      using rg G cur d by (simp add: free_def Let_def s1_def [symmetric])
    have "sharedOf s' = sharedOf s1" by (rule deletePendingResources_lists [OF d])
    with f drain_res_wf0 [OF w1 d] mem_same_trans [OF m1 drain_mem_same [OF d]]
      drain_mres [OF d] l1
    show ?thesis by simp
  qed
qed


lemma foldA_detach_returns:
  "\<forall>r \<in> set ys. resources s r \<noteq> None \<Longrightarrow> \<exists>s'. foldA invalidate_and_detach ys s = Inr s'"
proof (induction ys arbitrary: s)
  case Nil
  show ?case by simp
next
  case (Cons r ys)
  let ?s1 = "(emit (InvalidateResource r) s)\<lparr>resources := (resources s)(r \<mapsto> None)\<rparr>"
  from Cons.prems have s1: "invalidate_and_detach r s = Inr ?s1"
    by (auto simp: invalidate_and_detach_def invalidateResource_def)
  have "\<forall>r' \<in> set ys. resources ?s1 r' \<noteq> None" using Cons.prems by simp
  from Cons.IH [OF this] s1 show ?case by simp
qed

lemma foldA_delete_returns:
  "distinct zs \<Longrightarrow> \<forall>r \<in> set zs. resources s r \<noteq> None \<Longrightarrow>
     \<exists>s'. foldA delete_resource zs s = Inr s'"
proof (induction zs arbitrary: s)
  case Nil
  show ?case by simp
next
  case (Cons r zs)
  let ?s1 = "s\<lparr>resources := (resources s)(r := None)\<rparr>"
  from Cons.prems have s1: "delete_resource r s = Inr ?s1"
    by (auto simp: delete_resource_def)
  have "\<forall>r' \<in> set zs. resources ?s1 r' \<noteq> None" using Cons.prems by auto
  from Cons.IH [OF _ this] Cons.prems(1) s1 show ?case by simp
qed

lemma multi_cleanup_step:
  assumes inv: "phase1_inv g ((k, v) # rest) s"
  shows "\<exists>s'. multi_cleanup e g (k, v) s = Inr s' \<and> phase1_inv g rest s' \<and> mem_same s s'
              \<and> mresOf s' = mresOf s"
proof -
  from inv have w: "res_wf0 s" and v: "v \<in> set (sharedOf s g)"
    and gk: "g \<in> set (m_groups (multi s k))"
    and dk: "k \<notin> fst ` set rest" "distinct (map fst rest)"
    and dv: "v \<notin> snd ` set rest" "distinct (map snd rest)"
    and rest: "\<forall>kv \<in> set rest. snd kv \<in> set (sharedOf s g)
                          \<and> g \<in> set (m_groups (multi s (fst kv)))"
    and others: "\<forall>g'. g' \<noteq> g \<longrightarrow> mres_wf_at s g'"
    by (auto simp: phase1_inv_def)
  have live: "resources s v = Some (Some g)" using res_wf0_iff [OF w, of v g] v by simp
  define t where "t = emit (InvalidateResource v) s"
  have it: "invalidateResource v s = Inr t" by (simp add: invalidateResource_def live t_def)
  have wt: "res_wf0 t" by (rule res_wf0_frame [OF w]) (simp_all add: t_def)
  have vt: "v \<in> set (sharedOf t g)" using v by (simp add: t_def)
  from free_wf [OF wt vt, of e] obtain t2 where
    f: "free e v t = Inr t2" and w2: "res_wf0 t2" and m2: "mem_same t t2"
    and mr2: "mresOf t2 = mresOf t" and mu2: "multi t2 = multi t"
    and sh2: "sharedOf t2 = (sharedOf t)(g := remove1 v (sharedOf t g))"
    by blast
  define M where "M = multi t2 k"
  define t3 where "t3 = t2\<lparr>multi := (multi t2)(k := M\<lparr>m_active := m_active M - 1\<rparr>)\<rparr>"
  define t4 where "t4 = t3\<lparr>multi := (multi t3)(k := (multi t3 k)
                                \<lparr>m_groups := remove1 g (m_groups (multi t3 k))\<rparr>)\<rparr>"
  have gM: "g \<in> set (m_groups M)" using gk by (simp add: M_def mu2 t_def)
  have mc: "multi_cleanup e g (k, v) s = Inr t4"
    using it f gM by (simp add: multi_cleanup_def Let_def M_def t3_def t4_def)
  have mt: "mem_same s t" by (intro mem_sameI) (auto simp: t_def)
  have m4: "mem_same t2 t4" by (intro mem_sameI) (auto simp: t4_def t3_def)
  have ms: "mem_same s t4" by (rule mem_same_trans [OF mem_same_trans [OF mt m2] m4])
  have w4: "res_wf0 t4" by (rule res_wf0_frame [OF w2]) (simp_all add: t4_def t3_def)
  have sh4: "sharedOf t4 = (sharedOf s)(g := remove1 v (sharedOf s g))"
    by (simp add: t4_def t3_def sh2 t_def)
  have mr4: "mresOf t4 = mresOf s"
    using mr2 by (simp add: t4_def t3_def mresOf_def t_def fun_eq_iff)
  have mu4: "\<And>k'. m_groups (multi t4 k') = (if k' = k then remove1 g (m_groups (multi s k))
                                                else m_groups (multi s k'))"
    by (simp add: t4_def t3_def M_def mu2 t_def)
  have r4: "\<forall>kv \<in> set rest. snd kv \<in> set (sharedOf t4 g)
                          \<and> g \<in> set (m_groups (multi t4 (fst kv)))"
  proof
    fix kv assume kv: "kv \<in> set rest"
    then have "snd kv \<noteq> v" "fst kv \<noteq> k" using dv dk by auto
    moreover have "distinct (sharedOf s g)" using res_wf0_distinct [OF w, of g] by simp
    ultimately show "snd kv \<in> set (sharedOf t4 g) \<and> g \<in> set (m_groups (multi t4 (fst kv)))"
      using rest kv by (simp add: sh4 mu4)
  qed
  have o4: "\<forall>g'. g' \<noteq> g \<longrightarrow> mres_wf_at t4 g'"
  proof (intro allI impI)
    fix g' assume ne: "g' \<noteq> g"
    with others have o: "mres_wf_at s g'" by simp
    show "mres_wf_at t4 g'"
      unfolding mres_wf_at_def
    proof (intro conjI ballI)
      show "distinct (map fst (mresOf t4 g'))" "distinct (map snd (mresOf t4 g'))"
        using o by (simp_all add: mr4 mres_wf_at_def)
    next
      fix kv assume "kv \<in> set (mresOf t4 g')"
      then have kv: "kv \<in> set (mresOf s g')" by (simp add: mr4)
      with o have a: "snd kv \<in> set (sharedOf s g')" "g' \<in> set (m_groups (multi s (fst kv)))"
        by (auto simp: mres_wf_at_def)
      show "snd kv \<in> set (sharedOf t4 g')" using a(1) ne by (simp add: sh4)
      show "g' \<in> set (m_groups (multi t4 (fst kv)))"
        using a(2) ne by (auto simp: mu4)
    qed
  qed
  have "phase1_inv g rest t4"
    unfolding phase1_inv_def using w4 dk(2) dv(2) r4 o4 by blast
  with mc ms mr4 show ?thesis by blast
qed

lemma phase1_loop:
  "phase1_inv g xs s \<Longrightarrow>
     \<exists>s1. foldA (multi_cleanup e g) xs s = Inr s1 \<and> phase1_inv g [] s1 \<and> mem_same s s1
           \<and> mresOf s1 = mresOf s"
proof (induction xs arbitrary: s)
  case Nil
  then show ?case by simp
next
  case (Cons kv xs)
  obtain k v where kv: "kv = (k, v)" by (cases kv)
  from multi_cleanup_step [of g k v xs s e] Cons.prems kv obtain t where
    t: "multi_cleanup e g kv s = Inr t" and inv: "phase1_inv g xs t" and m: "mem_same s t"
    and mr: "mresOf t = mresOf s"
    by auto
  from Cons.IH [OF inv] obtain s1 where
    "foldA (multi_cleanup e g) xs t = Inr s1" "phase1_inv g [] s1" "mem_same t s1"
    "mresOf s1 = mresOf t"
    by blast
  with t m mr show ?case
    using mem_same_trans [OF m] by auto
qed


lemma cleanup_returns_after_phase1:
  assumes G: "groups s g = Some G"
    and p1: "foldA (multi_cleanup e g) (m_resources G) s = Inr s1"
    and G1: "groups s1 g = Some G1"
    and live: "\<forall>r \<in> set (m_sharedResources G1) \<union> set (m_pendingDeletion G1). resources s1 r \<noteq> None"
    and dist: "distinct (m_pendingDeletion G1)"
  shows "\<exists>s'. cleanup e g s = Inr s'"
proof -
  let ?t0 = "set_grp g (G1\<lparr>m_resources := []\<rparr>) s1"
  have "\<forall>r \<in> set (m_sharedResources G1). resources ?t0 r \<noteq> None" using live by simp
  from foldA_detach_returns [OF this] obtain s2 where
    p2: "foldA invalidate_and_detach (m_sharedResources G1) ?t0 = Inr s2" by blast
  note e2 = foldA_detach_effect [OF p2]
  have G2: "groups s2 g = Some (G1\<lparr>m_resources := []\<rparr>)" using e2 by simp
  let ?G2 = "G1\<lparr>m_resources := []\<rparr>"
  let ?t1 = "set_grp g (?G2\<lparr>m_sharedResources := []\<rparr>) s2"
  have "\<forall>r \<in> set (m_pendingDeletion ?G2). resources ?t1 r \<noteq> None"
    using live e2 by simp
  from foldA_delete_returns [OF _ this] dist obtain s3 where
    p3: "foldA delete_resource (m_pendingDeletion ?G2) ?t1 = Inr s3" by auto
  note e3 = foldA_delete_effect [OF p3]
  have G3: "groups s3 g = Some (?G2\<lparr>m_sharedResources := []\<rparr>)" using e3 by simp
  show ?thesis
    using G p1 G1 p2 G2 p3 G3 by (simp add: cleanup_def)
qed

lemma cleanup_wf:
  assumes w: "res_wf s" and G: "groups s g = Some G"
  shows "\<exists>s'. cleanup e g s = Inr s' \<and> res_wf s' \<and> mem_same s s'
              \<and> sharedOf s' g = [] \<and> pendingOf s' g = [] \<and> mresOf s' g = []"
proof -
  from w have w0: "res_wf0 s" and mg: "mres_wf_at s g"
    and mo: "\<forall>g'. g' \<noteq> g \<longrightarrow> mres_wf_at s g'"
    by (auto simp: res_wf_def)
  have "phase1_inv g (m_resources G) s"
    using w0 mg mo unfolding phase1_inv_def mres_wf_at_def lists_live(3) [OF G] by blast
  from phase1_loop [OF this, of e] obtain s1 where
    p1: "foldA (multi_cleanup e g) (m_resources G) s = Inr s1"
    and i1: "phase1_inv g [] s1" and m1: "mem_same s s1"
    by blast
  from i1 have w1: "res_wf0 s1" and o1: "\<forall>g'. g' \<noteq> g \<longrightarrow> mres_wf_at s1 g'"
    by (auto simp: phase1_inv_def)
  from mem_sameD(5) [OF m1, of g] G obtain G1 where G1: "groups s1 g = Some G1" by auto
  have live: "\<forall>r \<in> set (m_sharedResources G1) \<union> set (m_pendingDeletion G1). resources s1 r \<noteq> None"
  proof
    fix r assume "r \<in> set (m_sharedResources G1) \<union> set (m_pendingDeletion G1)"
    then have "r \<in> set (sharedOf s1 g) \<union> set (pendingOf s1 g)" by (simp add: lists_live [OF G1])
    then show "resources s1 r \<noteq> None" using res_wf0_iff [OF w1, of r g] by simp
  qed
  have dist: "distinct (m_sharedResources G1 @ m_pendingDeletion G1)"
    using res_wf0_distinct [OF w1, of g] by (simp add: lists_live [OF G1])
  then have dp: "distinct (m_pendingDeletion G1)" by simp
  from cleanup_returns_after_phase1 [OF G p1 G1 live dp] obtain s' where
    c: "cleanup e g s = Inr s'" by blast
  from cleanup_effect [OF c] p1 G G1 have
    grp: "groups s' = (groups s1)(g \<mapsto> G1\<lparr>m_resources := [], m_sharedResources := [],
                                          m_pendingDeletion := []\<rparr>)"
    and res: "resources s' = (\<lambda>r. if r \<in> set (m_pendingDeletion G1) then None
                            else if r \<in> set (m_sharedResources G1) then Some None
                            else resources s1 r)"
    and fr: "contexts s' = contexts s1"
     "qwindow_context_storage s' = qwindow_context_storage s1"
     "multi s' = multi s1" "group_counter s' = group_counter s1"
     "resource_counter s' = resource_counter s1"
     "deleteLater_posted s' = deleteLater_posted s1"
    by auto
  have sh: "\<And>g'. sharedOf s' g' = (if g' = g then [] else sharedOf s1 g')"
    and pe: "\<And>g'. pendingOf s' g' = (if g' = g then [] else pendingOf s1 g')"
    and mr: "\<And>g'. mresOf s' g' = (if g' = g then [] else mresOf s1 g')"
    by (simp_all add: sharedOf_def pendingOf_def mresOf_def grp)
  have in_g: "\<And>r. (r \<in> set (m_sharedResources G1) \<union> set (m_pendingDeletion G1))
                  = (resources s1 r = Some (Some g))"
    using res_wf0_iff [OF w1, of _ g] by (simp add: lists_live [OF G1])
  have w0': "res_wf0 s'"
  proof (rule res_wf0I)
    fix r mg assume "resources s' r = Some mg"
    then have "resources s1 r \<noteq> None" using live by (auto simp: res split: if_splits)
    then show "r < resource_counter s'" using res_wf0_live [OF w1, of r] fr by auto
  next
    fix g' show "distinct (sharedOf s' g' @ pendingOf s' g')"
      using res_wf0_distinct [OF w1, of g'] by (simp add: sh pe)
  next
    fix g' r
    show "(r \<in> set (sharedOf s' g') \<union> set (pendingOf s' g')) = (resources s' r = Some (Some g'))"
    proof (cases "g' = g")
      case True
      have "resources s' r \<noteq> Some (Some g)"
        using in_g [of r] by (auto simp: res)
      with True show ?thesis by (simp add: sh pe)
    next
      case False
      have "resources s' r = Some (Some g') \<longleftrightarrow> resources s1 r = Some (Some g')"
        using in_g [of r] False by (auto simp: res)
      with False show ?thesis using res_wf0_iff [OF w1, of r g'] by (simp add: sh pe)
    qed
  qed
  have ma: "\<forall>g'. mres_wf_at s' g'"
  proof
    fix g'
    show "mres_wf_at s' g'"
    proof (cases "g' = g")
      case True
      then show ?thesis by (simp add: mres_wf_at_def mr)
    next
      case False
      with o1 have "mres_wf_at s1 g'" by simp
      then show ?thesis
        by (rule mres_wf_at_frame) (simp_all add: mr sh fr False)
    qed
  qed
  have m': "mem_same s1 s'"
    using fr G1 by (intro mem_sameI) (auto simp: grp split: if_splits)
  show ?thesis
    using c w0' ma mem_same_trans [OF m1 m'] by (auto simp: res_wf_def sh pe mr)
qed

section \<open>Leaving a share group\<close>

lemma res_wf_lists_frame:
  assumes w: "res_wf s" and "sharedOf s' = sharedOf s" and "pendingOf s' = pendingOf s"
    and "mresOf s' = mresOf s" and "resources s' = resources s"
    and "resource_counter s' = resource_counter s" and "multi s' = multi s"
  shows "res_wf s'"
  using assms unfolding res_wf_def res_wf0_def mres_wf_at_def by simp

lemma res_wf_frame:
  assumes w: "res_wf s" and g: "groups s' = groups s" and "resources s' = resources s"
    and "resource_counter s' = resource_counter s" and "multi s' = multi s"
  shows "res_wf s'"
  by (rule res_wf_lists_frame [OF w lists_cong [OF g]]) (use assms in simp_all)

lemma res_wf_set_grp_same:
  assumes w: "res_wf s" and G: "groups s g = Some G"
    and "m_sharedResources G' = m_sharedResources G"
    and "m_pendingDeletion G' = m_pendingDeletion G"
    and "m_resources G' = m_resources G"
  shows "res_wf (set_grp g G' s)"
proof (rule res_wf_lists_frame [OF w])
  show "sharedOf (set_grp g G' s) = sharedOf s" "pendingOf (set_grp g G' s) = pendingOf s"
    "mresOf (set_grp g G' s) = mresOf s"
    using assms(3-5) lists_live [OF G] by (auto simp: fun_eq_iff)
qed simp_all

lemma delete_group_wf:
  assumes w: "res_wf s" and G: "groups s g = Some G"
  shows "\<exists>s1 s'. delete_group e g s = Inr s' \<and> res_wf s' \<and> mem_same s s1
           \<and> s' = s1\<lparr>groups := (groups s1)(g := None)\<rparr>"
proof -
  from cleanup_wf [OF w G, of e] obtain s1 where
    c: "cleanup e g s = Inr s1" and w1: "res_wf s1" and m1: "mem_same s s1"
    and e1: "sharedOf s1 g = []" "pendingOf s1 g = []" "mresOf s1 g = []"
    by blast
  let ?s' = "s1\<lparr>groups := (groups s1)(g := None)\<rparr>"
  have d: "delete_group e g s = Inr ?s'" by (simp add: delete_group_def c)
  have "res_wf ?s'"
  proof (rule res_wf_lists_frame [OF w1])
    show "sharedOf ?s' = sharedOf s1" "pendingOf ?s' = pendingOf s1" "mresOf ?s' = mresOf s1"
      using e1 by (auto simp: sharedOf_def pendingOf_def mresOf_def fun_eq_iff)
  qed simp_all
  with d m1 show ?thesis by blast
qed


lemma singleton_of_length:
  "length xs = 1 \<Longrightarrow> c \<in> set xs \<Longrightarrow> xs = [c]"
  by (cases xs) auto

lemma shares_live: "groups s g = Some G \<Longrightarrow> shares s g = m_shares G"
  by (simp add: shares_def)

lemma shares_dead: "groups s g = None \<Longrightarrow> shares s g = []"
  by (simp add: shares_def)

lemma leaves_mem_same:
  assumes l: "leaves e c g t s'" and m: "mem_same s t"
  shows "leaves e c g s s'"
proof -
  have sh: "\<And>g'. shares t g' = shares s g'" using mem_same_shares [OF m] by simp
  have ex: "\<And>P. (\<exists>G. groups t g = Some G \<and> P (g_thread G))
                 = (\<exists>G. groups s g = Some G \<and> P (g_thread G))"
  proof -
    fix P
    show "(\<exists>G. groups t g = Some G \<and> P (g_thread G))
                 = (\<exists>G. groups s g = Some G \<and> P (g_thread G))"
    proof (cases "groups s g")
      case None
      with mem_sameD(5) [OF m, of g] show ?thesis by simp
    next
      case (Some G)
      with mem_sameD(5) [OF m, of g] obtain H where H: "groups t g = Some H" by auto
      from mem_sameD(6) [OF m Some H] Some H show ?thesis by simp
    qed
  qed
  have f: "\<And>g' G G'. groups s g' = Some G \<Longrightarrow> groups s' g' = Some G'
            \<Longrightarrow> m_refs G' = (if g' = g then m_refs G - 1 else m_refs G)
                \<and> g_thread G' = g_thread G"
  proof -
    fix g' G G' assume G: "groups s g' = Some G" and G': "groups s' g' = Some G'"
    from G mem_sameD(5) [OF m, of g'] obtain H where H: "groups t g' = Some H" by auto
    from l H G' have "m_refs G' = (if g' = g then m_refs H - 1 else m_refs H)
                \<and> g_thread G' = g_thread H"
      unfolding leaves_def by blast
    with mem_sameD(6) [OF m G H]
    show "m_refs G' = (if g' = g then m_refs G - 1 else m_refs G) \<and> g_thread G' = g_thread G"
      by simp
  qed
  from l have l1: "\<forall>g'. shares s' g' = (if g' = g then remove1 c (shares t g) else shares t g')"
    and l2: "\<forall>g'. g' \<noteq> g \<longrightarrow> (groups s' g' = None) = (groups t g' = None)"
    and l4: "(groups s' g = None)
          = (shares t g = [c] \<and> (\<exists>G. groups t g = Some G \<and> g_thread G = QThread_currentThread e))"
    and l5: "deleteLater_posted s'
         = (if shares t g = [c] \<and> (\<exists>G. groups t g = Some G \<and> g_thread G \<noteq> QThread_currentThread e)
            then deleteLater_posted t @ [g] else deleteLater_posted t)"
    and l6: "group_counter s' = group_counter t"
    unfolding leaves_def by blast+
  show ?thesis
    unfolding leaves_def
  proof (intro conjI)
    show "\<forall>g'. shares s' g' = (if g' = g then remove1 c (shares s g) else shares s g')"
      using l1 by (simp add: sh)
    show "\<forall>g'. g' \<noteq> g \<longrightarrow> (groups s' g' = None) = (groups s g' = None)"
      using l2 mem_sameD(5) [OF m] by simp
    show "\<forall>g' G G'. groups s g' = Some G \<and> groups s' g' = Some G'
            \<longrightarrow> m_refs G' = (if g' = g then m_refs G - 1 else m_refs G)
                \<and> g_thread G' = g_thread G"
      using f by blast
    show "(groups s' g = None)
          = (shares s g = [c] \<and> (\<exists>G. groups s g = Some G \<and> g_thread G = QThread_currentThread e))"
      using l4 ex [of "\<lambda>t. t = QThread_currentThread e"] by (simp add: sh)
    show "deleteLater_posted s'
         = (if shares s g = [c] \<and> (\<exists>G. groups s g = Some G \<and> g_thread G \<noteq> QThread_currentThread e)
            then deleteLater_posted s @ [g] else deleteLater_posted s)"
      using l5 ex [of "\<lambda>t. t \<noteq> QThread_currentThread e"] mem_sameD(4) [OF m] by (simp add: sh)
    show "group_counter s' = group_counter s"
      using l6 mem_sameD(3) [OF m] by simp
  qed
qed


lemma removeContext_wf:
  assumes mw: "mem_wf s" and rw: "res_wf s" and sg: "shareGroup s c = Some g"
  shows "\<exists>s'. removeContext e g c s = Inr s' \<and> res_wf s' \<and> leaves e c g s s'
              \<and> shareGroup s' = shareGroup s \<and> handle s' = handle s"
proof -
  from mw sg have cs: "c \<in> set (shares s g)" unfolding mem_wf_def by blast
  then obtain G where G: "groups s g = Some G"
    by (cases "groups s g") (simp_all add: shares_dead)
  note shG = shares_live [OF G]
  from cs have cm: "c \<in> set (m_shares G)" by (simp add: shG)
  from mw have "distinct (shares s g)" unfolding mem_wf_def by blast
  then have dist: "distinct (m_shares G)" by (simp add: shG)
  from mw G have refs: "m_refs G = int (length (m_shares G))" unfolding mem_wf_def by blast
  define G1 where "G1 = G\<lparr>m_shares := remove1 c (m_shares G),
                      m_context := (if m_context G = Some c \<and> remove1 c (m_shares G) \<noteq> []
                                    then Some (hd (remove1 c (m_shares G))) else m_context G),
                      m_refs := m_refs G - 1\<rparr>"
  define s1 where "s1 = set_grp g G1 s"
  have G1: "groups s1 g = Some G1" by (simp add: s1_def)
  have gs1: "\<And>g'. g' \<noteq> g \<Longrightarrow> groups s1 g' = groups s g'" by (simp add: s1_def)
  have w1: "res_wf s1" unfolding s1_def
    by (rule res_wf_set_grp_same [OF rw G]) (simp_all add: G1_def)
  have sh1: "\<And>g'. shares s1 g' = (if g' = g then remove1 c (shares s g) else shares s g')"
    by (simp add: s1_def shares_def G G1_def)
  have zero: "(m_refs G1 = 0) = (m_shares G = [c])"
  proof
    assume "m_refs G1 = 0"
    then have "length (m_shares G) = 1" using refs by (simp add: G1_def)
    from singleton_of_length [OF this cm] show "m_shares G = [c]" .
  next
    assume "m_shares G = [c]"
    then show "m_refs G1 = 0" using refs by (simp add: G1_def)
  qed
  have fr1: "contexts s1 = contexts s" "deleteLater_posted s1 = deleteLater_posted s"
    "group_counter s1 = group_counter s"
    by (simp_all add: s1_def)
  have th1: "g_thread G1 = g_thread G" "m_refs G1 = m_refs G - 1" by (simp_all add: G1_def)
  show ?thesis
  proof (cases "m_shares G = [c]")
    case False
    then have r: "removeContext e g c s = Inr s1"
      using G zero by (simp add: removeContext_def Let_def G1_def s1_def)
    have "leaves e c g s s1"
      unfolding leaves_def
    proof (intro conjI allI impI)
      fix g' show "shares s1 g' = (if g' = g then remove1 c (shares s g) else shares s g')"
        by (rule sh1)
    next
      fix g' assume "g' \<noteq> g" then show "(groups s1 g' = None) = (groups s g' = None)"
        by (simp add: gs1)
    next
      fix g' H H' assume a: "groups s g' = Some H \<and> groups s1 g' = Some H'"
      show "m_refs H' = (if g' = g then m_refs H - 1 else m_refs H)"
      proof (cases "g' = g")
        case True
        with a G G1 have "H = G" "H' = G1" by simp_all
        with True th1 show ?thesis by simp
      next
        case False
        from gs1 [OF False] a have "Some H' = Some H" by simp
        with False show ?thesis by simp
      qed
      show "g_thread H' = g_thread H"
      proof (cases "g' = g")
        case True
        with a G G1 have "H = G" "H' = G1" by simp_all
        with th1 show ?thesis by simp
      next
        case False
        from gs1 [OF False] a have "Some H' = Some H" by simp
        then show ?thesis by simp
      qed
    next
      show "(groups s1 g = None) = (shares s g = [c] \<and>
          (\<exists>G. groups s g = Some G \<and> g_thread G = QThread_currentThread e))"
        using False G1 by (simp add: shG)
      show "deleteLater_posted s1 =
         (if shares s g = [c] \<and> (\<exists>G. groups s g = Some G \<and> g_thread G \<noteq> QThread_currentThread e)
          then deleteLater_posted s @ [g] else deleteLater_posted s)"
        using False by (simp add: shG fr1)
      show "group_counter s1 = group_counter s" by (rule fr1)
    qed
    moreover have "shareGroup s1 = shareGroup s" "handle s1 = handle s"
      by (simp_all add: shareGroup_def handle_def fun_eq_iff fr1)
    ultimately show ?thesis using r w1 by blast
  next
    case True
    from cleanup_wf [OF w1 G1, of e] obtain s2 where
      c2: "cleanup e g s1 = Inr s2" and w2: "res_wf s2" and m2: "mem_same s1 s2"
      by blast
    from mem_sameD(5) [OF m2, of g] G1 obtain G2 where G2: "groups s2 g = Some G2" by auto
    have hs1: "shareGroup s1 = shareGroup s" "handle s1 = handle s"
      by (simp_all add: shareGroup_def handle_def fun_eq_iff fr1)
    have r: "removeContext e g c s
               = (if g_thread G1 = QThread_currentThread e
                  then delete_group e g s2
                  else Inr (s2\<lparr>deleteLater_posted := deleteLater_posted s2 @ [g]\<rparr>))"
      using G zero True c2 by (simp add: removeContext_def Let_def G1_def s1_def)
    have main: "\<And>t s'. mem_same s1 t \<Longrightarrow>
        (g_thread G = QThread_currentThread e \<and> s' = t\<lparr>groups := (groups t)(g := None)\<rparr>)
        \<or> (g_thread G \<noteq> QThread_currentThread e
            \<and> s' = t\<lparr>deleteLater_posted := deleteLater_posted t @ [g]\<rparr>)
        \<Longrightarrow> leaves e c g s s' \<and> shareGroup s' = shareGroup s \<and> handle s' = handle s"
    proof -
      fix t s' assume m: "mem_same s1 t" and alt:
        "(g_thread G = QThread_currentThread e \<and> s' = t\<lparr>groups := (groups t)(g := None)\<rparr>)
        \<or> (g_thread G \<noteq> QThread_currentThread e
            \<and> s' = t\<lparr>deleteLater_posted := deleteLater_posted t @ [g]\<rparr>)"
      have sht: "\<And>g'. shares t g' = (if g' = g then [] else shares s g')"
        using mem_same_shares [OF m] sh1 True by (simp add: shG)
      from mem_sameD(5) [OF m, of g] G1 obtain Gt where Gt: "groups t g = Some Gt" by auto
      have none_t: "\<And>g'. g' \<noteq> g \<Longrightarrow> (groups t g' = None) = (groups s g' = None)"
        using mem_sameD(5) [OF m] gs1 by simp
      have fld: "\<And>g' H H'. groups s g' = Some H \<Longrightarrow> groups t g' = Some H' \<Longrightarrow>
               m_refs H' = (if g' = g then m_refs H - 1 else m_refs H) \<and> g_thread H' = g_thread H"
      proof -
        fix g' H H' assume H: "groups s g' = Some H" and H': "groups t g' = Some H'"
        show "m_refs H' = (if g' = g then m_refs H - 1 else m_refs H) \<and> g_thread H' = g_thread H"
        proof (cases "g' = g")
          case True
          with H G have "H = G" by simp
          moreover from True H' have "groups t g = Some H'" by simp
          from mem_sameD(6) [OF m G1 this] have "m_refs H' = m_refs G1" "g_thread H' = g_thread G1"
            by simp_all
          ultimately show ?thesis using True th1 by simp
        next
          case False
          from gs1 [OF False] H have "groups s1 g' = Some H" by simp
          from mem_sameD(6) [OF m this H'] False show ?thesis by simp
        qed
      qed
      have hst: "shareGroup t = shareGroup s" "handle t = handle s"
        using mem_sameD(1,2) [OF m] hs1 by simp_all
      have pt: "deleteLater_posted t = deleteLater_posted s" "group_counter t = group_counter s"
        using mem_sameD(3,4) [OF m] fr1 by simp_all
      from alt show "leaves e c g s s' \<and> shareGroup s' = shareGroup s \<and> handle s' = handle s"
      proof (elim disjE conjE)
        assume th: "g_thread G = QThread_currentThread e"
          and s': "s' = t\<lparr>groups := (groups t)(g := None)\<rparr>"
        have gs': "\<And>g'. groups s' g' = (if g' = g then None else groups t g')" by (simp add: s')
        have shs': "\<And>g'. shares s' g' = (if g' = g then [] else shares t g')"
          by (simp add: shares_def gs')
        have sc: "shares s g = [c]" using True by (simp add: shG)
        have "leaves e c g s s'"
          unfolding leaves_def
        proof (intro conjI allI impI)
          fix g' show "shares s' g' = (if g' = g then remove1 c (shares s g) else shares s g')"
            using sht [of g'] by (simp add: shs' sc)
        next
          fix g' assume "g' \<noteq> g" then show "(groups s' g' = None) = (groups s g' = None)"
            using none_t by (simp add: gs')
        next
          fix g' H H' assume a: "groups s g' = Some H \<and> groups s' g' = Some H'"
          then have "g' \<noteq> g" "groups t g' = Some H'" by (auto simp: gs' split: if_splits)
          with fld [of g' H H'] a
          show "m_refs H' = (if g' = g then m_refs H - 1 else m_refs H)" "g_thread H' = g_thread H"
            by simp_all
        next
          show "(groups s' g = None) = (shares s g = [c] \<and>
              (\<exists>G. groups s g = Some G \<and> g_thread G = QThread_currentThread e))"
            using sc th G by (simp add: gs')
          show "deleteLater_posted s' =
             (if shares s g = [c] \<and> (\<exists>G. groups s g = Some G \<and> g_thread G \<noteq> QThread_currentThread e)
              then deleteLater_posted s @ [g] else deleteLater_posted s)"
            using th G pt by (simp add: s')
          show "group_counter s' = group_counter s" using pt by (simp add: s')
        qed
        moreover have "shareGroup s' = shareGroup t" "handle s' = handle t"
          by (simp_all add: s' shareGroup_def handle_def fun_eq_iff)
        ultimately show ?thesis using hst by simp
      next
        assume th: "g_thread G \<noteq> QThread_currentThread e"
          and s': "s' = t\<lparr>deleteLater_posted := deleteLater_posted t @ [g]\<rparr>"
        have gs': "groups s' = groups t" by (simp add: s')
        have shs': "\<And>g'. shares s' g' = shares t g'"
          by (simp add: shares_def gs')
        have sc: "shares s g = [c]" using True by (simp add: shG)
        have "leaves e c g s s'"
          unfolding leaves_def
        proof (intro conjI allI impI)
          fix g' show "shares s' g' = (if g' = g then remove1 c (shares s g) else shares s g')"
            using sht [of g'] by (simp add: shs' sc)
        next
          fix g' assume "g' \<noteq> g" then show "(groups s' g' = None) = (groups s g' = None)"
            using none_t by (simp add: gs')
        next
          fix g' H H' assume a: "groups s g' = Some H \<and> groups s' g' = Some H'"
          with fld [of g' H H']
          show "m_refs H' = (if g' = g then m_refs H - 1 else m_refs H)" "g_thread H' = g_thread H"
            by (simp_all add: gs')
        next
          show "(groups s' g = None) = (shares s g = [c] \<and>
              (\<exists>G. groups s g = Some G \<and> g_thread G = QThread_currentThread e))"
            using th G Gt by (simp add: gs')
          show "deleteLater_posted s' =
             (if shares s g = [c] \<and> (\<exists>G. groups s g = Some G \<and> g_thread G \<noteq> QThread_currentThread e)
              then deleteLater_posted s @ [g] else deleteLater_posted s)"
            using th G pt sc by (simp add: s')
          show "group_counter s' = group_counter s" using pt by (simp add: s')
        qed
        moreover have "shareGroup s' = shareGroup t" "handle s' = handle t"
          by (simp_all add: s' shareGroup_def handle_def fun_eq_iff)
        ultimately show ?thesis using hst by simp
      qed
    qed
    show ?thesis
    proof (cases "g_thread G = QThread_currentThread e")
      case same: True
      from delete_group_wf [OF w2 G2, of e] obtain s3 s' where
        d: "delete_group e g s2 = Inr s'" and w': "res_wf s'" and m3: "mem_same s2 s3"
        and s': "s' = s3\<lparr>groups := (groups s3)(g := None)\<rparr>"
        by blast
      from main [OF mem_same_trans [OF m2 m3], of s'] same s'
      have "leaves e c g s s' \<and> shareGroup s' = shareGroup s \<and> handle s' = handle s" by simp
      with r d w' same th1 show ?thesis by simp
    next
      case other: False
      let ?s' = "s2\<lparr>deleteLater_posted := deleteLater_posted s2 @ [g]\<rparr>"
      have w': "res_wf ?s'" by (rule res_wf_frame [OF w2]) simp_all
      from main [OF m2, of ?s'] other
      have "leaves e c g s ?s' \<and> shareGroup ?s' = shareGroup s \<and> handle ?s' = handle s" by simp
      with r w' other th1 show ?thesis by simp
    qed
  qed
qed





lemma mem_wfD:
  assumes "mem_wf s"
  shows "(handle s c = None) = (shareGroup s c = None)"
    and "shareGroup s c = Some g \<Longrightarrow> c \<in> set (shares s g)"
    and "distinct (shares s g)"
    and "c \<in> set (shares s g) \<Longrightarrow> shareGroup s c = Some g"
    and "groups s g = Some G \<Longrightarrow> g < group_counter s \<and> m_refs G = int (length (m_shares G))"
    and "distinct (deleteLater_posted s)"
    and "g \<in> set (deleteLater_posted s) \<Longrightarrow> groups s g \<noteq> None \<and> shares s g = []"
proof -
  note m = assms [unfolded mem_wf_def]
  note a = m [THEN conjunct1]
  note b = m [THEN conjunct2, THEN conjunct1]
  note c = m [THEN conjunct2, THEN conjunct2, THEN conjunct1]
  note d = m [THEN conjunct2, THEN conjunct2, THEN conjunct2, THEN conjunct1]
  note e = m [THEN conjunct2, THEN conjunct2, THEN conjunct2, THEN conjunct2, THEN conjunct1]
  note f = m [THEN conjunct2, THEN conjunct2, THEN conjunct2, THEN conjunct2, THEN conjunct2]
  show "(handle s c = None) = (shareGroup s c = None)" using a by (rule spec)
  show "shareGroup s c = Some g \<Longrightarrow> c \<in> set (shares s g)" using b by blast
  show "distinct (shares s g)" using c by blast
  show "c \<in> set (shares s g) \<Longrightarrow> shareGroup s c = Some g" using c by blast
  show "groups s g = Some G \<Longrightarrow> g < group_counter s \<and> m_refs G = int (length (m_shares G))"
    using d by blast
  show "distinct (deleteLater_posted s)" by (rule e)
  show "g \<in> set (deleteLater_posted s) \<Longrightarrow> groups s g \<noteq> None \<and> shares s g = []"
    using f by blast
qed

lemma mem_wfI:
  assumes "\<And>c. (handle s c = None) = (shareGroup s c = None)"
    and "\<And>c g. shareGroup s c = Some g \<Longrightarrow> c \<in> set (shares s g)"
    and "\<And>g. distinct (shares s g)"
    and "\<And>c g. c \<in> set (shares s g) \<Longrightarrow> shareGroup s c = Some g"
    and "\<And>g G. groups s g = Some G \<Longrightarrow> g < group_counter s \<and> m_refs G = int (length (m_shares G))"
    and "distinct (deleteLater_posted s)"
    and "\<And>g. g \<in> set (deleteLater_posted s) \<Longrightarrow> groups s g \<noteq> None \<and> shares s g = []"
  shows "mem_wf s"
  unfolding mem_wf_def
  apply (intro conjI allI impI ballI)
  subgoal by (rule assms(1))
  subgoal by (rule assms(2))
  subgoal by (rule assms(3))
  subgoal by (rule assms(4))
  subgoal using assms(5) by blast
  subgoal using assms(5) by blast
  subgoal by (rule assms(6))
  subgoal using assms(7) by blast
  subgoal using assms(7) by blast
  done


lemma drain_res_wf:
  assumes w: "res_wf s" and d: "deletePendingResources e g ctx s = Inr s'"
  shows "res_wf s'"
proof -
  from w have w0: "res_wf0 s" and m: "\<forall>g. mres_wf_at s g" by (simp_all add: res_wf_def)
  note a = drain_mres(1) [OF d] and b = deletePendingResources_lists(1) [OF d]
    and c = drain_mres(2) [OF d]
  have "\<forall>g'. mres_wf_at s' g'"
  proof
    fix g'
    from m have "mres_wf_at s g'" by (rule spec)
    then show "mres_wf_at s' g'"
    proof (rule mres_wf_at_frame)
      show "mresOf s' g' = mresOf s g'" by (simp only: a)
      show "sharedOf s' g' = sharedOf s g'" by (simp only: b)
      show "multi s' = multi s" by (rule c)
    qed
  qed
  with drain_res_wf0 [OF w0 d] show ?thesis by (simp add: res_wf_def)
qed

lemma valid_has_group:
  assumes mw: "mem_wf s" and v: "isValid s c"
  shows "\<exists>g G. shareGroup s c = Some g \<and> groups s g = Some G"
proof -
  from v have "handle s c \<noteq> None" by (auto simp: isValid_def handle_def split: option.splits)
  with mem_wfD(1) [OF mw, of c] obtain g where g: "shareGroup s c = Some g" by auto
  from mem_wfD(2) [OF mw g] have "c \<in> set (shares s g)" .
  then obtain G where "groups s g = Some G" by (cases "groups s g") (simp_all add: shares_dead)
  with g show ?thesis by blast
qed


lemma doneCurrent_tail_frame:
  fixes s1 :: world and c :: nat and e :: env
  defines "s' \<equiv> upd_ctx c (\<lambda>d. d\<lparr>d_surface := None\<rparr>)
                     (fst (setCurrentContext e None (emit (PlatformDoneCurrent c) s1)))"
  shows "groups s' = groups s1" "resources s' = resources s1"
    "resource_counter s' = resource_counter s1" "multi s' = multi s1"
    "group_counter s' = group_counter s1" "deleteLater_posted s' = deleteLater_posted s1"
    "shareGroup s' = shareGroup s1" "handle s' = handle s1"
         apply (simp_all add: s'_def)
   apply (simp_all add: shareGroup_def handle_def fun_eq_iff)
  done

lemma doneCurrent_wf:
  assumes mw: "mem_wf s" and rw: "res_wf s"
  shows "\<exists>s'. doneCurrent e c s = Inr s' \<and> res_wf s' \<and> mem_same s s'"
proof (cases "isValid s c")
  case False
  then have "doneCurrent e c s = Inr s" by (simp add: doneCurrent_def)
  with rw mem_same_refl [of s] show ?thesis by blast
next
  case True
  let ?first = "if currentContext e s = Some c
         then (case shareGroup s c of
                 None \<Rightarrow> Inl Crash
               | Some g \<Rightarrow> deletePendingResources e g c s)
         else Inr s"
  have "\<exists>s1. ?first = Inr s1 \<and> res_wf s1 \<and> mem_same s s1"
  proof (cases "currentContext e s = Some c")
    case False
    then have "?first = Inr s" by simp
    with rw mem_same_refl [of s] show ?thesis by blast
  next
    case cur: True
    from valid_has_group [OF mw True] obtain g G where
      g: "shareGroup s c = Some g" and G: "groups s g = Some G" by blast
    from rw have "res_wf0 s" by (simp add: res_wf_def)
    from drain_returns [OF this G, of e c] obtain s1 where
      d: "deletePendingResources e g c s = Inr s1" by blast
    have "?first = Inr s1" by (simp add: cur g d)
    with drain_res_wf [OF rw d] drain_mem_same [OF d] show ?thesis by blast
  qed
  then obtain s1 where s1: "?first = Inr s1" and w1: "res_wf s1" and m1: "mem_same s s1"
    by blast
  define s' where "s' = upd_ctx c (\<lambda>d. d\<lparr>d_surface := None\<rparr>)
                     (fst (setCurrentContext e None (emit (PlatformDoneCurrent c) s1)))"
  note fr = doneCurrent_tail_frame [of c e s1, folded s'_def]
  have "doneCurrent e c s = bindA ?first (\<lambda>s1. Inr (upd_ctx c (\<lambda>d. d\<lparr>d_surface := None\<rparr>)
                     (fst (setCurrentContext e None (emit (PlatformDoneCurrent c) s1)))))"
    using True by (simp add: doneCurrent_def)
  also have "\<dots> = Inr s'" unfolding s1 by (simp add: s'_def)
  finally have d: "doneCurrent e c s = Inr s'" .
  have w': "res_wf s'" by (rule res_wf_frame [OF w1 fr(1) fr(2) fr(3) fr(4)])
  have "mem_same s1 s'"
  proof (rule mem_sameI2)
    show "shareGroup s' = shareGroup s1" by (rule fr(7))
    show "handle s' = handle s1" by (rule fr(8))
    show "group_counter s' = group_counter s1" by (rule fr(5))
    show "deleteLater_posted s' = deleteLater_posted s1" by (rule fr(6))
    show "(groups s' g = None) = (groups s1 g = None)" for g by (simp only: fr(1))
    show "m_shares G' = m_shares G \<and> m_refs G' = m_refs G
           \<and> g_thread G' = g_thread G \<and> m_context G' = m_context G"
      if "groups s1 g = Some G" "groups s' g = Some G'" for g G G'
      using that by (simp add: fr(1))
  qed
  from mem_same_trans [OF m1 this] d w' show ?thesis by blast
qed


lemma leavesD:
  assumes "leaves e c g s s'"
  shows "shares s' g' = (if g' = g then remove1 c (shares s g) else shares s g')"
    and "g' \<noteq> g \<Longrightarrow> (groups s' g' = None) = (groups s g' = None)"
    and "groups s g' = Some G \<Longrightarrow> groups s' g' = Some G'
            \<Longrightarrow> m_refs G' = (if g' = g then m_refs G - 1 else m_refs G) \<and> g_thread G' = g_thread G"
    and "(groups s' g = None)
          = (shares s g = [c] \<and> (\<exists>G. groups s g = Some G \<and> g_thread G = QThread_currentThread e))"
    and "deleteLater_posted s'
         = (if shares s g = [c] \<and> (\<exists>G. groups s g = Some G \<and> g_thread G \<noteq> QThread_currentThread e)
            then deleteLater_posted s @ [g] else deleteLater_posted s)"
    and "group_counter s' = group_counter s"
proof -
  note m = assms [unfolded leaves_def]
  note a = m [THEN conjunct1]
  note b = m [THEN conjunct2, THEN conjunct1]
  note c = m [THEN conjunct2, THEN conjunct2, THEN conjunct1]
  note d = m [THEN conjunct2, THEN conjunct2, THEN conjunct2, THEN conjunct1]
  note e = m [THEN conjunct2, THEN conjunct2, THEN conjunct2, THEN conjunct2, THEN conjunct1]
  note f = m [THEN conjunct2, THEN conjunct2, THEN conjunct2, THEN conjunct2, THEN conjunct2]
  show "shares s' g' = (if g' = g then remove1 c (shares s g) else shares s g')"
    using a by (rule spec)
  show "g' \<noteq> g \<Longrightarrow> (groups s' g' = None) = (groups s g' = None)" using b by blast
  show "groups s g' = Some G \<Longrightarrow> groups s' g' = Some G'
            \<Longrightarrow> m_refs G' = (if g' = g then m_refs G - 1 else m_refs G) \<and> g_thread G' = g_thread G"
    using c by blast
  show "(groups s' g = None)
          = (shares s g = [c] \<and> (\<exists>G. groups s g = Some G \<and> g_thread G = QThread_currentThread e))"
    by (rule d)
  show "deleteLater_posted s'
         = (if shares s g = [c] \<and> (\<exists>G. groups s g = Some G \<and> g_thread G \<noteq> QThread_currentThread e)
            then deleteLater_posted s @ [g] else deleteLater_posted s)" by (rule e)
  show "group_counter s' = group_counter s" by (rule f)
qed

lemma leaves_mem_wf:
  assumes mw: "mem_wf s" and sg: "shareGroup s c = Some g" and l: "leaves e c g s s1"
    and hs: "shareGroup s1 = shareGroup s" "handle s1 = handle s"
  shows "mem_wf (upd_ctx c (\<lambda>d. d\<lparr>d_shareGroup := None, d_platformGLContext := None\<rparr>) s1)"
    (is "mem_wf ?s'")
proof -
  have sg': "shareGroup ?s' = (shareGroup s)(c := None)"
    and h': "handle ?s' = (handle s)(c := None)"
    using hs by (auto simp: shareGroup_def handle_def fun_eq_iff)
  note sh1 = leavesD(1) [OF l] and none1 = leavesD(2) [OF l]
    and dead1 = leavesD(4) [OF l] and post1 = leavesD(5) [OF l] and cnt1 = leavesD(6) [OF l]
  have fld1: "\<And>g' G G'. groups s g' = Some G \<Longrightarrow> groups s1 g' = Some G'
            \<Longrightarrow> m_refs G' = (if g' = g then m_refs G - 1 else m_refs G)"
    using leavesD(3) [OF l] by blast
  have sh': "\<And>g'. shares ?s' g' = (if g' = g then remove1 c (shares s g) else shares s g')"
    using sh1 by (simp add: shares_def)
  note m1 = mem_wfD(1) [OF mw] and m2 = mem_wfD(2) [OF mw] and m3 = mem_wfD(3) [OF mw]
    and m3' = mem_wfD(4) [OF mw] and m4 = mem_wfD(5) [OF mw] and m5 = mem_wfD(6) [OF mw]
    and m6 = mem_wfD(7) [OF mw]
  from m2 [OF sg] have cs: "c \<in> set (shares s g)" .
  then obtain G where G: "groups s g = Some G" by (cases "groups s g") (simp_all add: shares_dead)
  have np: "g \<notin> set (deleteLater_posted s)" using m6 [of g] cs by auto
  show ?thesis
    unfolding mem_wf_def
  proof (intro conjI allI impI ballI)
    fix c' show "(handle ?s' c' = None) = (shareGroup ?s' c' = None)"
      using m1 [of c'] by (simp add: sg' h')
  next
    fix c' g' assume a: "shareGroup ?s' c' = Some g'"
    then have ne: "c' \<noteq> c" and b: "shareGroup s c' = Some g'"
      by (auto simp: sg' split: if_splits)
    from m2 [OF b] ne show "c' \<in> set (shares ?s' g')"
      by (auto simp: sh')
  next
    fix g' show "distinct (shares ?s' g')" using m3 [of g'] by (auto simp: sh')
  next
    fix g' c' assume a: "c' \<in> set (shares ?s' g')"
    show "shareGroup ?s' c' = Some g'"
    proof (cases "g' = g")
      case True
      with a have "c' \<in> set (remove1 c (shares s g))" by (simp add: sh')
      then have "c' \<noteq> c" "c' \<in> set (shares s g)" using m3 [of g] by auto
      with m3' [of c' g] True show ?thesis by (simp add: sg')
    next
      case False
      with a have b: "c' \<in> set (shares s g')" by (simp add: sh')
      from m3' [OF b] sg False have "c' \<noteq> c" by auto
      with m3' [OF b] show ?thesis by (simp add: sg')
    qed
  next
    fix g' G' assume a: "groups ?s' g' = Some G'"
    then have a1: "groups s1 g' = Some G'" by simp
    have "\<exists>H. groups s g' = Some H"
    proof (cases "g' = g")
      case True then show ?thesis using G by simp
    next
      case False
      with none1 [OF False] a1 show ?thesis by auto
    qed
    then obtain H where H: "groups s g' = Some H" by blast
    from m4 [OF H] have lt: "g' < group_counter s" and rf: "m_refs H = int (length (m_shares H))"
      by simp_all
    show "g' < group_counter ?s'" using lt cnt1 by simp
    have shG': "shares s1 g' = m_shares G'" using a1 by (simp add: shares_def)
    have shH: "shares s g' = m_shares H" using H by (simp add: shares_def)
    show "m_refs G' = int (length (m_shares G'))"
    proof (cases "g' = g")
      case True
      have "length (remove1 c (shares s g)) = length (shares s g) - 1"
        using cs by (simp add: length_remove1)
      moreover have "length (shares s g) \<ge> 1" using cs by (cases "shares s g") auto
      ultimately show ?thesis
        using fld1 [OF H a1] rf True sh1 [of g] shG' shH by simp
    next
      case False
      then show ?thesis using fld1 [OF H a1] rf sh1 [of g'] shG' shH by simp
    qed
  next
    show "distinct (deleteLater_posted ?s')" using m5 np by (simp add: post1)
  next
    fix g' assume a: "g' \<in> set (deleteLater_posted ?s')"
    show "groups ?s' g' \<noteq> None"
    proof (cases "g' = g")
      case True
      with a np have "shares s g = [c] \<and> (\<exists>G. groups s g = Some G \<and> g_thread G \<noteq> QThread_currentThread e)"
        by (auto simp: post1 split: if_splits)
      with G have "groups s1 g \<noteq> None" using dead1 by auto
      with True show ?thesis by simp
    next
      case False
      with a have "g' \<in> set (deleteLater_posted s)" by (auto simp: post1 split: if_splits)
      with m6 [of g'] none1 [OF False] show ?thesis by simp
    qed
    show "shares ?s' g' = []"
    proof (cases "g' = g")
      case True
      with a np have "shares s g = [c]" by (auto simp: post1 split: if_splits)
      with True show ?thesis by (simp add: sh')
    next
      case False
      with a have "g' \<in> set (deleteLater_posted s)" by (auto simp: post1 split: if_splits)
      with m6 [of g'] False show ?thesis by (simp add: sh')
    qed
  qed
qed



lemma free_contexts:
  assumes "free e r s = Inr s'"
  shows "contexts s' = contexts s"
  using assms
  by (auto simp: free_def Let_def split: option.splits if_splits
           dest!: deletePendingResources_frame)

lemma multi_cleanup_contexts:
  assumes "multi_cleanup e g kv s = Inr s'"
  shows "contexts s' = contexts s"
proof -
  obtain key val where kv: "kv = (key, val)" by (cases kv)
  from assms obtain s1 s2 where
    a: "invalidateResource val s = Inr s1" and b: "free e val s1 = Inr s2"
    and c: "contexts s' = contexts s2"
    by (auto simp: multi_cleanup_def kv bindA_eq_Inr Let_def split: if_splits)
  from a have "contexts s1 = contexts s"
    by (auto simp: invalidateResource_def split: option.splits)
  with free_contexts [OF b] c show ?thesis by simp
qed

lemma cleanup_contexts:
  assumes "cleanup e g s = Inr s'"
  shows "contexts s' = contexts s"
proof -
  from cleanup_effect [OF assms] obtain G s1 where
    G: "groups s g = Some G"
    and p1: "foldA (multi_cleanup e g) (m_resources G) s = Inr s1"
    and c: "contexts s' = contexts s1"
    by (elim exE conjE) (rule that)
  have "contexts s1 = contexts s"
    by (rule foldA_invariant [where I = "\<lambda>t. contexts t = contexts s", OF p1])
       (simp_all add: multi_cleanup_contexts)
  with c show ?thesis by simp
qed

lemma delete_group_contexts:
  assumes "delete_group e g s = Inr s'"
  shows "contexts s' = contexts s"
proof -
  from assms obtain s1 where c: "cleanup e g s = Inr s1"
    and s': "s' = s1\<lparr>groups := (groups s1)(g := None)\<rparr>"
    by (auto simp: delete_group_def bindA_eq_Inr)
  from cleanup_contexts [OF c] show ?thesis by (simp add: s')
qed

lemma removeContext_contexts:
  assumes "removeContext e g c s = Inr s'"
  shows "contexts s' = contexts s"
  using assms
  by (auto simp: removeContext_def Let_def bindA_eq_Inr split: option.splits if_splits
           dest!: cleanup_contexts delete_group_contexts)

lemma doneCurrent_contexts:
  assumes "doneCurrent e c s = Inr s'"
  shows "s' = s \<or> contexts s' = (contexts s)(c := (contexts s c)\<lparr>d_surface := None\<rparr>)"
proof (cases "isValid s c")
  case False
  with assms show ?thesis by (simp add: doneCurrent_def)
next
  case True
  with assms obtain s1 where
    a: "(if currentContext e s = Some c
         then (case shareGroup s c of
                 None \<Rightarrow> Inl Crash
               | Some g \<Rightarrow> deletePendingResources e g c s)
         else Inr s) = Inr s1"
    and s': "s' = upd_ctx c (\<lambda>d. d\<lparr>d_surface := None\<rparr>)
                     (fst (setCurrentContext e None (emit (PlatformDoneCurrent c) s1)))"
    by (auto simp: doneCurrent_def bindA_eq_Inr)
  from a have "contexts s1 = contexts s"
    by (auto split: if_splits option.splits dest: deletePendingResources_frame)
  then show ?thesis by (simp add: s')
qed

lemma doneCurrent_shareContext:
  assumes "doneCurrent e c s = Inr s'"
  shows "shareContext s' = shareContext s" "shareGroup s' = shareGroup s" "handle s' = handle s"
  using doneCurrent_contexts [OF assms]
  by (auto simp: shareContext_def shareGroup_def handle_def fun_eq_iff)

lemma destroy_contexts:
  assumes "destroy e c s = Inr s'"
  shows "shareContext s' = shareContext s"
    and "shareGroup s' = (shareGroup s)(c := None)"
    and "handle s' = (handle s)(c := None)"
proof -
  define s1 where "s1 = (if handle s c \<noteq> None then emit (AboutToBeDestroyed c) s else s)"
  have "bindA (if currentContext e s1 = Some c then doneCurrent e c s1 else Inr s1) (\<lambda>s2.
         bindA (case shareGroup s2 c of
                  Some g \<Rightarrow> removeContext e g c s2
                | None \<Rightarrow> Inr s2) (\<lambda>s3.
         Inr (upd_ctx c (\<lambda>d. d\<lparr>d_shareGroup := None, d_platformGLContext := None\<rparr>) s3))) = Inr s'"
    using assms unfolding destroy_def Let_def s1_def .
  then obtain s2 s3 where
    a: "(if currentContext e s1 = Some c then doneCurrent e c s1 else Inr s1) = Inr s2"
    and b: "(case shareGroup s2 c of
                  Some g \<Rightarrow> removeContext e g c s2
                | None \<Rightarrow> Inr s2) = Inr s3"
    and s': "s' = upd_ctx c (\<lambda>d. d\<lparr>d_shareGroup := None, d_platformGLContext := None\<rparr>) s3"
    by (auto simp: bindA_eq_Inr)
  have c1: "contexts s1 = contexts s" by (simp add: s1_def)
  then have f1: "shareContext s1 = shareContext s" "shareGroup s1 = shareGroup s"
    "handle s1 = handle s"
    by (simp_all add: shareContext_def shareGroup_def handle_def fun_eq_iff)
  from a have f2: "shareContext s2 = shareContext s1 \<and> shareGroup s2 = shareGroup s1
     \<and> handle s2 = handle s1"
    by (auto split: if_splits dest: doneCurrent_shareContext)
  from b have "contexts s3 = contexts s2"
    by (auto split: option.splits dest: removeContext_contexts)
  then have f3: "shareContext s3 = shareContext s2" "shareGroup s3 = shareGroup s2"
    "handle s3 = handle s2"
    by (simp_all add: shareContext_def shareGroup_def handle_def fun_eq_iff)
  have f4: "shareContext s' = shareContext s3" "shareGroup s' = (shareGroup s3)(c := None)"
    "handle s' = (handle s3)(c := None)"
    by (simp_all add: s' shareContext_def shareGroup_def handle_def fun_eq_iff)
  from f1 f2 f3 f4 show "shareContext s' = shareContext s" by simp
  from f1 f2 f3 f4 show "shareGroup s' = (shareGroup s)(c := None)" by simp
  from f1 f2 f3 f4 show "handle s' = (handle s)(c := None)" by simp
qed


lemma leaves_frame:
  assumes l: "leaves e c g s t" and g: "groups t' = groups t"
    and d: "deleteLater_posted t' = deleteLater_posted t"
    and n: "group_counter t' = group_counter t"
  shows "leaves e c g s t'"
proof -
  have sh: "shares t' = shares t" by (simp add: shares_def fun_eq_iff g)
  from l show ?thesis unfolding leaves_def sh g d n .
qed

lemma wf_emit:
  assumes "wf s"
  shows "wf (emit ev s)"
proof -
  from assms have m: "mem_wf s" and r: "res_wf s" by (simp_all add: wf_def)
  have "mem_same s (emit ev s)" by (rule mem_sameI) simp_all
  from mem_same_wf [OF this m] have "mem_wf (emit ev s)" .
  moreover have "res_wf (emit ev s)" by (rule res_wf_frame [OF r]) simp_all
  ultimately show ?thesis by (simp add: wf_def)
qed

lemma destroy_wf:
  assumes w: "wf s"
  shows "\<exists>s'. destroy e c s = Inr s' \<and> wf s'
           \<and> (case shareGroup s c of Some g \<Rightarrow> leaves e c g s s' | None \<Rightarrow> mem_same s s')"
proof -
  define s1 where "s1 = (if handle s c \<noteq> None then emit (AboutToBeDestroyed c) s else s)"
  have w1: "wf s1" using w by (simp add: s1_def wf_emit)
  then have m1: "mem_wf s1" and r1: "res_wf s1" by (simp_all add: wf_def)
  have "mem_same s (emit (AboutToBeDestroyed c) s)" by (rule mem_sameI) simp_all
  then have ms1: "mem_same s s1" unfolding s1_def
    by (cases "handle s c \<noteq> None") (simp_all add: mem_same_refl)
  have "\<exists>s2. (if currentContext e s1 = Some c then doneCurrent e c s1 else Inr s1) = Inr s2
          \<and> res_wf s2 \<and> mem_same s1 s2"
  proof (cases "currentContext e s1 = Some c")
    case True
    with doneCurrent_wf [OF m1 r1, of e c] show ?thesis by simp
  next
    case False
    with r1 mem_same_refl [of s1] show ?thesis by simp
  qed
  then obtain s2 where
    a: "(if currentContext e s1 = Some c then doneCurrent e c s1 else Inr s1) = Inr s2"
    and r2: "res_wf s2" and ms2: "mem_same s1 s2" by blast
  note ms = mem_same_trans [OF ms1 ms2]
  from mem_same_wf [OF ms] w have m2: "mem_wf s2" by (simp add: wf_def)
  have sg2: "shareGroup s2 = shareGroup s" and h2: "handle s2 = handle s"
    using mem_sameD(1) [OF ms] mem_sameD(2) [OF ms] by simp_all
  let ?clear = "upd_ctx c (\<lambda>d. d\<lparr>d_shareGroup := None, d_platformGLContext := None\<rparr>)"
  have unf: "destroy e c s =
      bindA (if currentContext e s1 = Some c then doneCurrent e c s1 else Inr s1) (\<lambda>s2.
         bindA (case shareGroup s2 c of
                  Some g \<Rightarrow> removeContext e g c s2
                | None \<Rightarrow> Inr s2) (\<lambda>s3. Inr (?clear s3)))"
    unfolding destroy_def Let_def s1_def ..
  show ?thesis
  proof (cases "shareGroup s c")
    case None
    then have n2: "shareGroup s2 c = None" by (simp add: sg2)
    have d: "destroy e c s = Inr (?clear s2)" unfolding unf a by (simp add: n2)
    from mem_wfD(1) [OF m2, of c] n2 have hn: "handle s2 c = None" by simp
    have "mem_same s2 (?clear s2)"
    proof (rule mem_sameI2)
      show "shareGroup (?clear s2) = shareGroup s2"
        using n2 by (auto simp: shareGroup_def fun_eq_iff)
      show "handle (?clear s2) = handle s2"
        using hn by (auto simp: handle_def fun_eq_iff)
    qed simp_all
    from mem_same_trans [OF ms this] have ms': "mem_same s (?clear s2)" .
    from mem_same_wf [OF ms'] w have "mem_wf (?clear s2)" by (simp add: wf_def)
    moreover have "res_wf (?clear s2)" by (rule res_wf_frame [OF r2]) simp_all
    ultimately show ?thesis using d ms' None by (simp add: wf_def)
  next
    case (Some g)
    then have g2: "shareGroup s2 c = Some g" by (simp add: sg2)
    from removeContext_wf [OF m2 r2 g2, of e] obtain s3 where
      rc: "removeContext e g c s2 = Inr s3" and r3: "res_wf s3"
      and l3: "leaves e c g s2 s3"
      and hs: "shareGroup s3 = shareGroup s2" "handle s3 = handle s2"
      by blast
    have d: "destroy e c s = Inr (?clear s3)" unfolding unf a by (simp add: g2 rc)
    from leaves_mem_wf [OF m2 g2 l3 hs] have m': "mem_wf (?clear s3)" .
    have r': "res_wf (?clear s3)" by (rule res_wf_frame [OF r3]) simp_all
    have "leaves e c g s s3" by (rule leaves_mem_same [OF l3 ms])
    then have "leaves e c g s (?clear s3)" by (rule leaves_frame) simp_all
    with d m' r' Some show ?thesis by (simp add: wf_def)
  qed
qed

section \<open>Joining a share group\<close>

lemma adopt_new:
  assumes "\<not> pc_isSharing pc \<or> shareContext s c = None"
  shows "\<exists>s'. adopt e pc c s = Inr s'
     \<and> handle s' = (handle s)(c \<mapsto> pc)
     \<and> shareGroup s' = (shareGroup s)(c \<mapsto> group_counter s)
     \<and> shareContext s' = (shareContext s)(c := None)
     \<and> groups s' = (groups s)(group_counter s \<mapsto>
           \<lparr>m_context = None, m_shares = [c], m_resources = [], m_refs = 1,
            m_sharedResources = [], m_pendingDeletion = [],
            g_thread = QThread_currentThread e\<rparr>)
     \<and> group_counter s' = Suc (group_counter s)
     \<and> resources s' = resources s \<and> resource_counter s' = resource_counter s
     \<and> multi s' = multi s \<and> deleteLater_posted s' = deleteLater_posted s
     \<and> qwindow_context_storage s' = qwindow_context_storage s \<and> trace s' = trace s"
  using assms
  by (auto simp: adopt_def Let_def new_QOpenGLContextGroup_def addContext_def
      shareContext_def shareGroup_def handle_def fun_eq_iff)

lemma adopt_join:
  assumes "pc_isSharing pc" and "shareContext s c = Some sc"
    and "shareGroup s sc = Some g" and "groups s g = Some G"
  shows "\<exists>s'. adopt e pc c s = Inr s'
     \<and> handle s' = (handle s)(c \<mapsto> pc)
     \<and> shareGroup s' = (shareGroup s)(c \<mapsto> g)
     \<and> shareContext s' = shareContext s
     \<and> groups s' = (groups s)(g \<mapsto> G\<lparr>m_refs := m_refs G + 1, m_shares := m_shares G @ [c]\<rparr>)
     \<and> group_counter s' = group_counter s
     \<and> resources s' = resources s \<and> resource_counter s' = resource_counter s
     \<and> multi s' = multi s \<and> deleteLater_posted s' = deleteLater_posted s
     \<and> qwindow_context_storage s' = qwindow_context_storage s \<and> trace s' = trace s"
  using assms
  by (auto simp: adopt_def Let_def addContext_def
      shareContext_def shareGroup_def handle_def fun_eq_iff)

lemma adopt_crash:
  assumes "pc_isSharing pc" and "shareContext s c = Some sc"
    and "shareGroup s sc = None \<or> (\<exists>g. shareGroup s sc = Some g \<and> groups s g = None)"
  shows "adopt e pc c s = Inl Crash"
  using assms
  by (auto simp: adopt_def Let_def addContext_def
      shareContext_def shareGroup_def handle_def fun_eq_iff)


lemma join_mem_wf:
  assumes mw: "mem_wf s" and nc: "shareGroup s c = None"
    and h': "handle s' = (handle s)(c \<mapsto> pc)"
    and sg': "shareGroup s' = (shareGroup s)(c \<mapsto> g)"
    and sh': "\<And>g'. shares s' g' = (if g' = g then shares s g @ [c] else shares s g')"
    and grp: "\<And>g' G'. groups s' g' = Some G'
               \<Longrightarrow> g' < group_counter s' \<and> m_refs G' = int (length (m_shares G'))"
    and dl: "deleteLater_posted s' = deleteLater_posted s"
    and ex: "\<And>g'. g' \<noteq> g \<Longrightarrow> (groups s' g' = None) = (groups s g' = None)"
    and np: "g \<notin> set (deleteLater_posted s)"
  shows "mem_wf s'"
proof (rule mem_wfI)
  note m1 = mem_wfD(1) [OF mw] and m2 = mem_wfD(2) [OF mw] and m3 = mem_wfD(3) [OF mw]
    and m4 = mem_wfD(4) [OF mw] and m6 = mem_wfD(6) [OF mw] and m7 = mem_wfD(7) [OF mw]
  have notin: "c \<notin> set (shares s g')" for g'
  proof
    assume "c \<in> set (shares s g')"
    from m4 [OF this] nc show False by simp
  qed
  show "(handle s' c' = None) = (shareGroup s' c' = None)" for c'
    using m1 [of c'] by (simp add: h' sg')
  show "c' \<in> set (shares s' g')" if a: "shareGroup s' c' = Some g'" for c' g'
  proof (cases "c' = c")
    case True
    with a have "g' = g" by (simp add: sg')
    with True show ?thesis by (simp add: sh')
  next
    case False
    with a have "shareGroup s c' = Some g'" by (simp add: sg')
    from m2 [OF this] show ?thesis by (auto simp: sh')
  qed
  show "distinct (shares s' g')" for g'
    using m3 [of g'] notin [of g] by (auto simp: sh')
  show "shareGroup s' c' = Some g'" if a: "c' \<in> set (shares s' g')" for c' g'
  proof (cases "c' = c")
    case True
    with a notin [of g'] have "g' = g" by (auto simp: sh' split: if_splits)
    with True show ?thesis by (simp add: sg')
  next
    case False
    with a have "c' \<in> set (shares s g')" by (auto simp: sh' split: if_splits)
    from m4 [OF this] False show ?thesis by (simp add: sg')
  qed
  show "g' < group_counter s' \<and> m_refs G' = int (length (m_shares G'))"
    if "groups s' g' = Some G'" for g' G'
    using that by (rule grp)
  show "distinct (deleteLater_posted s')" using m6 by (simp add: dl)
  show "groups s' g' \<noteq> None \<and> shares s' g' = []"
    if a: "g' \<in> set (deleteLater_posted s')" for g'
  proof -
    from a have b: "g' \<in> set (deleteLater_posted s)" by (simp add: dl)
    with np have ne: "g' \<noteq> g" by auto
    from m7 [OF b] ex [OF ne] ne show ?thesis by (simp add: sh')
  qed
qed

lemma adopt_new_wf:
  assumes w: "wf s" and nc: "shareGroup s c = None"
    and n: "\<not> pc_isSharing pc \<or> shareContext s c = None"
  shows "\<exists>s'. adopt e pc c s = Inr s' \<and> wf s'
     \<and> handle s' = (handle s)(c \<mapsto> pc)
     \<and> shareGroup s' = (shareGroup s)(c \<mapsto> group_counter s)
     \<and> shareContext s' = (shareContext s)(c := None)
     \<and> groups s (group_counter s) = None
     \<and> shares s' = (shares s)(group_counter s := [c])
     \<and> group_counter s' = Suc (group_counter s)"
proof -
  let ?g = "group_counter s"
  let ?N = "\<lparr>m_context = None, m_shares = [c], m_resources = [], m_refs = 1,
            m_sharedResources = [], m_pendingDeletion = [],
            g_thread = QThread_currentThread e\<rparr>"
  from w have mw: "mem_wf s" and rw: "res_wf s" by (simp_all add: wf_def)
  from adopt_new [OF n, of e] obtain s' where
    a: "adopt e pc c s = Inr s'"
    and h': "handle s' = (handle s)(c \<mapsto> pc)"
    and sg': "shareGroup s' = (shareGroup s)(c \<mapsto> ?g)"
    and sc': "shareContext s' = (shareContext s)(c := None)"
    and gr': "groups s' = (groups s)(?g \<mapsto> ?N)"
    and gc': "group_counter s' = Suc ?g"
    and fr: "resources s' = resources s" "resource_counter s' = resource_counter s"
      "multi s' = multi s" "deleteLater_posted s' = deleteLater_posted s"
    by (elim exE conjE) (rule that)
  have fresh: "groups s ?g = None"
  proof (cases "groups s ?g")
    case (Some G)
    from mem_wfD(5) [OF mw Some] show ?thesis by simp
  qed simp
  then have sh0: "shares s ?g = []" by (rule shares_dead)
  have sh': "shares s' = (shares s)(?g := [c])"
    by (simp add: shares_def gr' fun_eq_iff)
  have np: "?g \<notin> set (deleteLater_posted s)"
    using mem_wfD(7) [OF mw, of ?g] fresh by auto
  have "mem_wf s'"
  proof (rule join_mem_wf [OF mw nc h' sg' _ _ fr(4) _ np])
    show "shares s' g' = (if g' = ?g then shares s ?g @ [c] else shares s g')" for g'
      by (simp add: sh' sh0)
    show "g' < group_counter s' \<and> m_refs G' = int (length (m_shares G'))"
      if a: "groups s' g' = Some G'" for g' G'
    proof (cases "g' = ?g")
      case True
      with a have "G' = ?N" by (simp add: gr')
      with True show ?thesis by (simp add: gc')
    next
      case False
      with a have "groups s g' = Some G'" by (simp add: gr')
      from mem_wfD(5) [OF mw this] show ?thesis by (simp add: gc')
    qed
    show "(groups s' g' = None) = (groups s g' = None)" if "g' \<noteq> ?g" for g'
      using that by (simp add: gr')
  qed
  moreover have "res_wf s'"
  proof (rule res_wf_lists_frame [OF rw])
    show "sharedOf s' = sharedOf s" "pendingOf s' = pendingOf s" "mresOf s' = mresOf s"
      using fresh by (auto simp: sharedOf_def pendingOf_def mresOf_def gr' fun_eq_iff)
  qed (rule fr)+
  ultimately have "wf s'" by (simp add: wf_def)
  with a h' sg' sc' fresh sh' gc' show ?thesis by blast
qed

lemma adopt_join_wf:
  assumes w: "wf s" and nc: "shareGroup s c = None"
    and p: "pc_isSharing pc" and sc: "shareContext s c = Some sc"
    and g: "shareGroup s sc = Some g"
  shows "\<exists>s'. adopt e pc c s = Inr s' \<and> wf s'
     \<and> handle s' = (handle s)(c \<mapsto> pc)
     \<and> shareGroup s' = (shareGroup s)(c \<mapsto> g)
     \<and> shareContext s' = shareContext s
     \<and> shares s' = (shares s)(g := shares s g @ [c])
     \<and> (\<forall>g'. (groups s' g' = None) = (groups s g' = None))
     \<and> group_counter s' = group_counter s"
proof -
  from w have mw: "mem_wf s" and rw: "res_wf s" by (simp_all add: wf_def)
  from mem_wfD(2) [OF mw g] have scm: "sc \<in> set (shares s g)" .
  then obtain G where G: "groups s g = Some G"
    by (cases "groups s g") (simp_all add: shares_dead)
  let ?G' = "G\<lparr>m_refs := m_refs G + 1, m_shares := m_shares G @ [c]\<rparr>"
  from adopt_join [OF p sc g G, of e] obtain s' where
    a: "adopt e pc c s = Inr s'"
    and h': "handle s' = (handle s)(c \<mapsto> pc)"
    and sg': "shareGroup s' = (shareGroup s)(c \<mapsto> g)"
    and sc': "shareContext s' = shareContext s"
    and gr': "groups s' = (groups s)(g \<mapsto> ?G')"
    and gc': "group_counter s' = group_counter s"
    and fr: "resources s' = resources s" "resource_counter s' = resource_counter s"
      "multi s' = multi s" "deleteLater_posted s' = deleteLater_posted s"
    by (elim exE conjE) (rule that)
  have sh': "shares s' = (shares s)(g := shares s g @ [c])"
    using G by (simp add: shares_def gr' fun_eq_iff)
  have ex: "(groups s' g' = None) = (groups s g' = None)" for g'
    using G by (simp add: gr')
  have np: "g \<notin> set (deleteLater_posted s)"
    using mem_wfD(7) [OF mw, of g] scm by auto
  have "mem_wf s'"
  proof (rule join_mem_wf [OF mw nc h' sg' _ _ fr(4) _ np])
    show "shares s' g' = (if g' = g then shares s g @ [c] else shares s g')" for g'
      by (simp add: sh')
    show "g' < group_counter s' \<and> m_refs G' = int (length (m_shares G'))"
      if a: "groups s' g' = Some G'" for g' G'
    proof (cases "g' = g")
      case True
      with a have "G' = ?G'" by (simp add: gr')
      with True mem_wfD(5) [OF mw G] show ?thesis by (simp add: gc')
    next
      case False
      with a have "groups s g' = Some G'" by (simp add: gr')
      from mem_wfD(5) [OF mw this] show ?thesis by (simp add: gc')
    qed
    show "(groups s' g' = None) = (groups s g' = None)" if "g' \<noteq> g" for g'
      by (rule ex)
  qed
  moreover have "res_wf s'"
  proof (rule res_wf_lists_frame [OF rw])
    show "sharedOf s' = sharedOf s" "pendingOf s' = pendingOf s" "mresOf s' = mresOf s"
      using G by (auto simp: sharedOf_def pendingOf_def mresOf_def gr' fun_eq_iff)
  qed (rule fr)+
  ultimately have "wf s'" by (simp add: wf_def)
  with a h' sg' sc' sh' ex gc' show ?thesis by blast
qed


lemma adopt_effect:
  assumes a: "adopt e pc c s = Inr s'"
  shows "handle s' = (handle s)(c \<mapsto> pc)
     \<and> (\<exists>g. shareGroup s' = (shareGroup s)(c \<mapsto> g) \<and> c \<in> set (shares s' g))"
proof (cases "\<not> pc_isSharing pc \<or> shareContext s c = None")
  case True
  from adopt_new [OF True, of e] a
  have "handle s' = (handle s)(c \<mapsto> pc)"
    and "shareGroup s' = (shareGroup s)(c \<mapsto> group_counter s)"
    and "groups s' = (groups s)(group_counter s \<mapsto>
           \<lparr>m_context = None, m_shares = [c], m_resources = [], m_refs = 1,
            m_sharedResources = [], m_pendingDeletion = [],
            g_thread = QThread_currentThread e\<rparr>)"
    by auto
  then show ?thesis by (auto simp: shares_def)
next
  case False
  then obtain sc where p: "pc_isSharing pc" and sc: "shareContext s c = Some sc" by auto
  from adopt_crash [OF p sc, of e] a obtain g G where
    g: "shareGroup s sc = Some g" and G: "groups s g = Some G"
    by (cases "shareGroup s sc"; cases "groups s (the (shareGroup s sc))") auto
  from adopt_join [OF p sc g G, of e] a
  have "handle s' = (handle s)(c \<mapsto> pc)"
    and "shareGroup s' = (shareGroup s)(c \<mapsto> g)"
    and "groups s' = (groups s)(g \<mapsto> G\<lparr>m_refs := m_refs G + 1, m_shares := m_shares G @ [c]\<rparr>)"
    by auto
  then show ?thesis by (auto simp: shares_def)
qed

lemma create_unfold:
  "create e None c s =
     bindA (if handle s c \<noteq> None then destroy e c s else Inr s) (\<lambda>s1. Inr (s1, False))"
  "create e (Some pc) c s =
     bindA (if handle s c \<noteq> None then destroy e c s else Inr s) (\<lambda>s1.
       bindA (adopt e pc c s1) (\<lambda>s2. Inr (s2, isValid s2 c)))"
  by (simp_all add: create_def)

lemma create_effect:
  "create e None c s = Inr (s', b) \<Longrightarrow> \<not> b \<and> handle s' c = None"
  "create e (Some pc) c s = Inr (s', b) \<Longrightarrow>
     b = pc_isValid pc \<and> isValid s' c = pc_isValid pc \<and> handle s' c = Some pc
     \<and> (\<exists>g. shareGroup s' c = Some g \<and> c \<in> set (shares s' g))"
proof -
  assume "create e None c s = Inr (s', b)"
  then have "\<not> b" and "(if handle s c \<noteq> None then destroy e c s else Inr s) = Inr s'"
    by (auto simp: create_unfold bindA_eq_Inr)
  then show "\<not> b \<and> handle s' c = None"
    by (cases "handle s c \<noteq> None") (auto dest: destroy_contexts(3))
next
  assume "create e (Some pc) c s = Inr (s', b)"
  then obtain s1 where a: "adopt e pc c s1 = Inr s'" and b: "b = isValid s' c"
    by (auto simp: create_unfold bindA_eq_Inr)
  from adopt_effect [OF a] obtain g where
    h: "handle s' = (handle s1)(c \<mapsto> pc)"
    and g: "shareGroup s' = (shareGroup s1)(c \<mapsto> g)" and m: "c \<in> set (shares s' g)"
    by blast
  from h have hc: "handle s' c = Some pc" by simp
  then have "isValid s' c = pc_isValid pc" by (simp add: isValid_def handle_def)
  with b hc g m show "b = pc_isValid pc \<and> isValid s' c = pc_isValid pc \<and> handle s' c = Some pc
     \<and> (\<exists>g. shareGroup s' c = Some g \<and> c \<in> set (shares s' g))" by simp
qed

lemma create_prefix_wf:
  assumes w: "wf s"
  shows "\<exists>s1. (if handle s c \<noteq> None then destroy e c s else Inr s) = Inr s1 \<and> wf s1
     \<and> shareGroup s1 = (shareGroup s)(c := None)
     \<and> handle s1 = (handle s)(c := None)
     \<and> shareContext s1 = shareContext s
     \<and> (case shareGroup s c of Some g \<Rightarrow> leaves e c g s s1 | None \<Rightarrow> s1 = s)"
proof (cases "handle s c")
  case None
  from w have mw: "mem_wf s" by (simp add: wf_def)
  from mem_wfD(1) [OF mw, of c] None have n: "shareGroup s c = None" by simp
  have "shareGroup s = (shareGroup s)(c := None)" "handle s = (handle s)(c := None)"
    using None n by (auto simp: fun_eq_iff)
  with None n w show ?thesis by simp
next
  case (Some pc)
  from w have mw: "mem_wf s" by (simp add: wf_def)
  from mem_wfD(1) [OF mw, of c] Some obtain g where g: "shareGroup s c = Some g" by auto
  from destroy_wf [OF w, of e c] obtain s1 where
    d: "destroy e c s = Inr s1" and w1: "wf s1"
    and l: "case shareGroup s c of Some g \<Rightarrow> leaves e c g s s1 | None \<Rightarrow> mem_same s s1"
    by blast
  from l g have "leaves e c g s s1" by simp
  with destroy_contexts [OF d] d w1 Some g show ?thesis by simp
qed


lemma isValid_handle: "handle s c = Some pc \<Longrightarrow> isValid s c = pc_isValid pc"
  by (simp add: isValid_def handle_def)

lemma prefix_group_counter:
  assumes "case shareGroup s c of Some g \<Rightarrow> leaves e c g s s1 | None \<Rightarrow> s1 = s"
  shows "group_counter s1 = group_counter s"
  using assms by (cases "shareGroup s c") (auto dest: leavesD(6))

lemma create_new_wf:
  assumes w: "wf s" and n: "\<not> pc_isSharing pc \<or> shareContext s c = None"
  shows "\<exists>s'. create e (Some pc) c s = Inr (s', pc_isValid pc) \<and> wf s'
     \<and> shareContext s' c = None \<and> shareGroup s' c = Some (group_counter s)
     \<and> groups s (group_counter s) = None \<and> shares s' (group_counter s) = [c]
     \<and> group_counter s' = Suc (group_counter s)"
proof -
  from create_prefix_wf [OF w, of c e] obtain s1 where
    p: "(if handle s c \<noteq> None then destroy e c s else Inr s) = Inr s1" and w1: "wf s1"
    and sg1: "shareGroup s1 = (shareGroup s)(c := None)"
    and sc1: "shareContext s1 = shareContext s"
    and l: "case shareGroup s c of Some g \<Rightarrow> leaves e c g s s1 | None \<Rightarrow> s1 = s"
    by blast
  note gc1 = prefix_group_counter [OF l]
  from sg1 have nc: "shareGroup s1 c = None" by simp
  from n have n1: "\<not> pc_isSharing pc \<or> shareContext s1 c = None" by (simp add: sc1)
  from adopt_new_wf [OF w1 nc n1, of e] obtain s' where
    a: "adopt e pc c s1 = Inr s'" and w': "wf s'"
    and h': "handle s' = (handle s1)(c \<mapsto> pc)"
    and sg': "shareGroup s' = (shareGroup s1)(c \<mapsto> group_counter s1)"
    and sc': "shareContext s' = (shareContext s1)(c := None)"
    and fresh1: "groups s1 (group_counter s1) = None"
    and sh': "shares s' = (shares s1)(group_counter s1 := [c])"
    and gc': "group_counter s' = Suc (group_counter s1)"
    by blast
  from h' have "handle s' c = Some pc" by simp
  from isValid_handle [OF this] have v: "isValid s' c = pc_isValid pc" .
  have cr: "create e (Some pc) c s = Inr (s', pc_isValid pc)"
    unfolding create_unfold p by (simp add: a v)
  from w have mw: "mem_wf s" by (simp add: wf_def)
  have fresh: "groups s (group_counter s) = None"
  proof (cases "groups s (group_counter s)")
    case (Some G)
    from mem_wfD(5) [OF mw Some] show ?thesis by simp
  qed simp
  from cr w' sc' sg' sh' gc' fresh show ?thesis by (simp add: gc1)
qed

lemma create_join_wf:
  assumes w: "wf s" and p: "pc_isSharing pc" and sc: "shareContext s c = Some sc"
    and ne: "sc \<noteq> c" and g: "shareGroup s sc = Some g"
  shows "\<exists>s'. create e (Some pc) c s = Inr (s', pc_isValid pc) \<and> wf s'
     \<and> shareContext s' c = Some sc \<and> shareGroup s' c = Some g \<and> shareGroup s' sc = Some g
     \<and> set (shares s' g) = insert c (set (shares s g))"
proof -
  from create_prefix_wf [OF w, of c e] obtain s1 where
    pr: "(if handle s c \<noteq> None then destroy e c s else Inr s) = Inr s1" and w1: "wf s1"
    and sg1: "shareGroup s1 = (shareGroup s)(c := None)"
    and sc1: "shareContext s1 = shareContext s"
    and l: "case shareGroup s c of Some g \<Rightarrow> leaves e c g s s1 | None \<Rightarrow> s1 = s"
    by blast
  from sg1 have nc: "shareGroup s1 c = None" by simp
  from sg1 g ne have g1: "shareGroup s1 sc = Some g" by simp
  from sc have sc1': "shareContext s1 c = Some sc" by (simp add: sc1)
  from adopt_join_wf [OF w1 nc p sc1' g1, of e] obtain s' where
    a: "adopt e pc c s1 = Inr s'" and w': "wf s'"
    and h': "handle s' = (handle s1)(c \<mapsto> pc)"
    and sg': "shareGroup s' = (shareGroup s1)(c \<mapsto> g)"
    and sc': "shareContext s' = shareContext s1"
    and sh': "shares s' = (shares s1)(g := shares s1 g @ [c])"
    by blast
  from h' have "handle s' c = Some pc" by simp
  from isValid_handle [OF this] have v: "isValid s' c = pc_isValid pc" .
  have cr: "create e (Some pc) c s = Inr (s', pc_isValid pc)"
    unfolding create_unfold pr by (simp add: a v)
  from w have mw: "mem_wf s" by (simp add: wf_def)
  have "set (shares s1 g) = set (shares s g) - {c}"
  proof (cases "shareGroup s c")
    case None
    with l have "s1 = s" by simp
    moreover have "c \<notin> set (shares s g)"
      using mem_wfD(4) [OF mw, of c g] None by auto
    ultimately show ?thesis by simp
  next
    case (Some g0)
    with l have l0: "leaves e c g0 s s1" by simp
    show ?thesis
    proof (cases "g = g0")
      case True
      with leavesD(1) [OF l0, of g] mem_wfD(3) [OF mw, of g] show ?thesis by simp
    next
      case False
      have "c \<notin> set (shares s g)"
        using mem_wfD(4) [OF mw, of c g] Some False by auto
      with leavesD(1) [OF l0, of g] False show ?thesis by simp
    qed
  qed
  then have "set (shares s' g) = insert c (set (shares s g))" by (auto simp: sh')
  with cr w' sc' sg' sc1' g1 ne show ?thesis by simp
qed

lemma wf_init: "wf init"
proof -
  have "mem_wf init"
    by (rule mem_wfI) (simp_all add: init_def handle_def shareGroup_def shares_def)
  moreover have "res_wf init"
    by (simp add: res_wf_def res_wf0_def mres_wf_at_def init_def
        sharedOf_def pendingOf_def mresOf_def)
  ultimately show ?thesis by (simp add: wf_def)
qed

section \<open>The result of create\<close>

lemma wf_st_created: "wf st_created"
proof -
  from create_new_wf [OF wf_init, of pc_plain 0 env_main] obtain s' where
    c: "create env_main (Some pc_plain) 0 init = Inr (s', pc_isValid pc_plain)" and w: "wf s'"
    by (auto simp: pc_plain_def)
  have "st_created = s'" by (simp add: st_created_def after_def run_def c)
  with w show ?thesis by simp
qed

text \<open>
  C5. \<open>create\<close> reports the failure of the platform as a boolean. When the platform
  integration produces no platform context, \<open>create\<close> returns false and \<open>handle\<close> is
  null afterwards; when it produces one, the value returned is \<open>isValid()\<close> of that
  platform context, which is now the handle and decides \<open>isValid()\<close> of the context.
  Both hold of every call that returns. In a consistent state the call does return:
  always when no platform context is produced, and with a platform context whenever the
  context does not share or its share context is another context that has been created.
\<close>

theorem create_propagates_failure:
  "(create e None c s = Inr (s', b) \<longrightarrow> \<not> b \<and> handle s' c = None)
   \<and> (create e (Some pc) c s = Inr (s', b)
        \<longrightarrow> b = pc_isValid pc \<and> isValid s' c = pc_isValid pc \<and> handle s' c = Some pc)
   \<and> (wf s \<longrightarrow> (\<exists>t. create e None c s = Inr (t, False)))
   \<and> (wf s \<and> (\<not> pc_isSharing pc \<or> shareContext s c = None
               \<or> (\<exists>sc g. shareContext s c = Some sc \<and> sc \<noteq> c \<and> shareGroup s sc = Some g))
        \<longrightarrow> (\<exists>t. create e (Some pc) c s = Inr (t, pc_isValid pc)))"
proof (intro conjI impI)
  assume "create e None c s = Inr (s', b)"
  from create_effect(1) [OF this] show "\<not> b" and "handle s' c = None" by simp_all
next
  assume "create e (Some pc) c s = Inr (s', b)"
  from create_effect(2) [OF this]
  show "b = pc_isValid pc" and "isValid s' c = pc_isValid pc" and "handle s' c = Some pc"
    by simp_all
next
  assume w: "wf s"
  from create_prefix_wf [OF w, of c e] obtain s1 where
    "(if handle s c \<noteq> None then destroy e c s else Inr s) = Inr s1" by blast
  then have "create e None c s = Inr (s1, False)" by (simp add: create_unfold)
  then show "\<exists>t. create e None c s = Inr (t, False)" ..
next
  assume a: "wf s \<and> (\<not> pc_isSharing pc \<or> shareContext s c = None
               \<or> (\<exists>sc g. shareContext s c = Some sc \<and> sc \<noteq> c \<and> shareGroup s sc = Some g))"
  then have w: "wf s" ..
  show "\<exists>t. create e (Some pc) c s = Inr (t, pc_isValid pc)"
  proof (cases "\<not> pc_isSharing pc \<or> shareContext s c = None")
    case True
    from create_new_wf [OF w True, of e] show ?thesis by blast
  next
    case False
    with a obtain sc g where p: "pc_isSharing pc" and sc: "shareContext s c = Some sc"
      and ne: "sc \<noteq> c" and g: "shareGroup s sc = Some g" by blast
    from create_join_wf [OF w p sc ne g, of e] show ?thesis by blast
  qed
qed

theorem create_propagates_failure_witness:
  "wf st_created \<and> handle st_created 0 \<noteq> None
   \<and> returned (create env_main None 0 st_created) = Some False
   \<and> map_option (\<lambda>t. handle t 0) (state_after (create env_main None 0 st_created)) = Some None
   \<and> returned (create env_main (Some pc_plain) 2 st_created) = Some True
   \<and> map_option (\<lambda>t. (isValid t 2, handle t 2))
        (state_after (create env_main (Some pc_plain) 2 st_created)) = Some (True, Some pc_plain)
   \<and> returned (create env_main (Some pc_invalid) 0 st_created) = Some False
   \<and> map_option (\<lambda>t. (isValid t 0, handle t 0))
        (state_after (create env_main (Some pc_invalid) 0 st_created))
       = Some (False, Some pc_invalid)"
proof -
  note w = wf_st_created
  have h: "handle st_created 0 \<noteq> None" by (simp add: st_created_eq handle_def)
  note T1 = create_propagates_failure [of env_main 0 st_created _ _ pc_plain]
  from mp [OF T1 [THEN conjunct2, THEN conjunct2, THEN conjunct1] w]
  obtain t1 where c1: "create env_main None 0 st_created = Inr (t1, False)" ..
  note U1 = create_propagates_failure [of env_main 0 st_created t1 False pc_plain]
  from mp [OF U1 [THEN conjunct1] c1] have k1: "handle t1 0 = None" by simp
  note T2 = create_propagates_failure [of env_main 2 st_created _ _ pc_plain]
  have "wf st_created \<and> (\<not> pc_isSharing pc_plain \<or> shareContext st_created 2 = None
               \<or> (\<exists>sc g. shareContext st_created 2 = Some sc \<and> sc \<noteq> 2
                      \<and> shareGroup st_created sc = Some g))"
    using w by (simp add: pc_plain_def)
  from mp [OF T2 [THEN conjunct2, THEN conjunct2, THEN conjunct2] this]
  obtain t2 where c2: "create env_main (Some pc_plain) 2 st_created = Inr (t2, pc_isValid pc_plain)" ..
  note U2 = create_propagates_failure [of env_main 2 st_created t2 "pc_isValid pc_plain" pc_plain]
  from mp [OF U2 [THEN conjunct2, THEN conjunct1] c2]
  have k2: "isValid t2 2 = pc_isValid pc_plain" "handle t2 2 = Some pc_plain" by simp_all
  note T3 = create_propagates_failure [of env_main 0 st_created _ _ pc_invalid]
  have "wf st_created \<and> (\<not> pc_isSharing pc_invalid \<or> shareContext st_created 0 = None
               \<or> (\<exists>sc g. shareContext st_created 0 = Some sc \<and> sc \<noteq> 0
                      \<and> shareGroup st_created sc = Some g))"
    using w by (simp add: pc_invalid_def)
  from mp [OF T3 [THEN conjunct2, THEN conjunct2, THEN conjunct2] this]
  obtain t3 where c3: "create env_main (Some pc_invalid) 0 st_created
                        = Inr (t3, pc_isValid pc_invalid)" ..
  note U3 = create_propagates_failure [of env_main 0 st_created t3 "pc_isValid pc_invalid" pc_invalid]
  from mp [OF U3 [THEN conjunct2, THEN conjunct1] c3]
  have k3: "isValid t3 0 = pc_isValid pc_invalid" "handle t3 0 = Some pc_invalid" by simp_all
  have vp: "pc_isValid pc_plain" and vi: "\<not> pc_isValid pc_invalid"
    by (simp_all add: pc_plain_def pc_invalid_def)
  from c2 vp have c2': "create env_main (Some pc_plain) 2 st_created = Inr (t2, True)" by simp
  from c3 vi have c3': "create env_main (Some pc_invalid) 0 st_created = Inr (t3, False)" by simp
  show ?thesis
    using w h k1 k2 k3 vp vi
    by (simp add: c1 c2' c3' returned_def state_after_def)
qed

section \<open>Membership of share groups\<close>








end
